theory Spec2Isabelle
  imports Main
begin

section \<open>Data model of the image processor\<close>

text \<open>
  Every URL the component stores comes from \<^verbatim>\<open>URL.createObjectURL\<close>, which hands out a
  fresh, non-empty \<^verbatim>\<open>blob:\<close> URL on every call. A URL is therefore modelled by its serial
  number; \<^verbatim>\<open>!img.processed\<close> is \<open>processed img = None\<close> and
  \<^verbatim>\<open>url?.startsWith('blob:')\<close> is \<open>url \<noteq> None\<close>.
\<close>

datatype url = BlobUrl nat

datatype status = Pending | Processing | Completed | Failed

record ProcessedImage =
  original :: url
  preview :: url
  processed :: "url option"
  name :: string
  status :: status
  retries :: nat

text \<open>A thrown JavaScript error, with the two properties the component reads.\<close>

datatype jserror = JsError (err_name: string) (err_message: string)

text \<open>The constants of \<^verbatim>\<open>SETTINGS\<close>.\<close>

definition maxSize :: nat where "maxSize = 10 * 1024 * 1024"
definition upload_types :: "string list" where
  "upload_types = [''image/jpeg'', ''image/png'', ''image/webp'']"
definition maxRetries :: nat where "maxRetries = 3"
definition retryDelay :: nat where "retryDelay = 1000"
definition batchSize :: nat where "batchSize = 2"

datatype toast =
    InvalidFiles
  | UploadSuccessful nat
  | UploadFailed
  | ProcessSuccess
  | ProcessingFailed
  | BulkComplete nat nat
  | BulkFailed
  | ImageDeleted

text \<open>
  Calls that leave the component, in the order they are made. \<open>Fetch\<close> and
  \<open>RemoveBackground\<close> carry the abort signal handed to the collaborator (the number of
  the controller it belongs to), \<open>None\<close> when the call passes no signal. The three
  writers of the shared \<^verbatim>\<open>progress\<close> value are kept apart: the transform's
  progress callback, the batch runner's report after a Job, and the reset to 0.
\<close>

datatype call =
    Fetch url "nat option"
  | RemoveBackground url "nat option"
  | SetTimeout nat
  | ConsoleError
  | RevokeObjectURL url
  | ToastCall toast
  | ProgressCallback int
  | BatchProgress nat nat
  | ProgressReset

record state =
  images :: "ProcessedImage list"
  currentImageIndex :: nat
  isProcessing :: bool
  isBulkProcessing :: bool
  progress :: int
  controllers :: "bool list"
  abortController :: "nat option"
  nextBlob :: nat
  calls :: "call list"

definition init :: state where
  "init = \<lparr>images = [], currentImageIndex = 0, isProcessing = False,
     isBulkProcessing = False, progress = 0, controllers = [], abortController = None,
     nextBlob = 0, calls = []\<rparr>"

definition emit :: "call \<Rightarrow> state \<Rightarrow> state" where
  "emit c s = s\<lparr>calls := calls s @ [c]\<rparr>"

definition createObjectURL :: "state \<Rightarrow> url \<times> state" where
  "createObjectURL s = (BlobUrl (nextBlob s), s\<lparr>nextBlob := Suc (nextBlob s)\<rparr>)"

definition cleanup :: "url option \<Rightarrow> state \<Rightarrow> state" where
  "cleanup u s = (case u of None \<Rightarrow> s | Some v \<Rightarrow> emit (RevokeObjectURL v) s)"

text \<open>\<^verbatim>\<open>Math.round((processed / total) * 100)\<close>, rounding half up, on exact fractions. The
  code rounds the floating-point product, which for a few ratios (23 of 40 is the first)
  lies just below the half and gives one less; no property below depends on such a value.\<close>

definition percent :: "nat \<Rightarrow> nat \<Rightarrow> int" where
  "percent k n = (if n = 0 then 0 else (200 * int k + int n) div (2 * int n))"

definition setProgress :: "call \<Rightarrow> int \<Rightarrow> state \<Rightarrow> state" where
  "setProgress site v s = emit site (s\<lparr>progress := v\<rparr>)"

text \<open>\<^verbatim>\<open>prev.map((img, idx) => idx === i ? f(img) : img)\<close>\<close>

definition map_at :: "nat \<Rightarrow> ('a \<Rightarrow> 'a) \<Rightarrow> 'a list \<Rightarrow> 'a list" where
  "map_at i f xs = map (\<lambda>(idx, img). if idx = i then f img else img) (enumerate 0 xs)"

section \<open>processImage: one processing episode\<close>

text \<open>
  The shared \<^verbatim>\<open>abortController\<close> ref: an episode aborts the controller it finds and
  stores a new one. \<open>controllers\<close> holds the \<^verbatim>\<open>aborted\<close> flag of every controller made.
\<close>

definition abort_current :: "state \<Rightarrow> state" where
  "abort_current s = (case abortController s of
      None \<Rightarrow> s
    | Some c \<Rightarrow> s\<lparr>controllers := (controllers s)[c := True]\<rparr>)"

definition new_controller :: "state \<Rightarrow> state" where
  "new_controller s =
     s\<lparr>controllers := controllers s @ [False],
       abortController := Some (length (controllers s))\<rparr>"

text \<open>
  What the collaborators answer to one attempt: the fetch of the image data is rejected,
  or the transform is called, reports progress (each value already
  \<^verbatim>\<open>Math.round(p * 100)\<close>) and then is rejected or resolves.
\<close>

datatype attempt =
    FetchFails jserror
  | TransformFails "int list" jserror
  | TransformOk "int list"

definition start_attempt :: "url \<Rightarrow> state \<Rightarrow> state" where
  "start_attempt imageUrl s = emit (Fetch imageUrl None) (new_controller (abort_current s))"

definition call_transform :: "url \<Rightarrow> state \<Rightarrow> state" where
  "call_transform imageUrl s = emit (RemoveBackground imageUrl None) s"

definition report :: "int \<Rightarrow> state \<Rightarrow> state" where
  "report p s = setProgress (ProgressCallback p) p s"

text \<open>The \<^verbatim>\<open>try\<close> block: \<open>None\<close> when it reaches the \<^verbatim>\<open>return\<close>, the error caught otherwise.\<close>

definition try_body :: "attempt \<Rightarrow> url \<Rightarrow> state \<Rightarrow> jserror option \<times> state" where
  "try_body a imageUrl s =
     (let s1 = start_attempt imageUrl s in
      case a of
        FetchFails e \<Rightarrow> (Some e, s1)
      | TransformFails ps e \<Rightarrow> (Some e, fold report ps (call_transform imageUrl s1))
      | TransformOk ps \<Rightarrow> (None, fold report ps (call_transform imageUrl s1)))"

definition max_retries_exceeded :: jserror where
  "max_retries_exceeded = JsError ''Error'' ''Max retries exceeded''"

function processImage ::
  "(nat \<Rightarrow> attempt) \<Rightarrow> url \<Rightarrow> nat \<Rightarrow> state \<Rightarrow> (jserror + url) \<times> state" where
  "processImage env imageUrl retryCount s =
     (if retryCount \<ge> maxRetries then (Inl max_retries_exceeded, s)
      else case try_body (env retryCount) imageUrl s of
        (None, s1) \<Rightarrow> (case createObjectURL s1 of (u, s2) \<Rightarrow> (Inr u, s2))
      | (Some error, s1) \<Rightarrow>
          if err_name error = ''AbortError'' then (Inr imageUrl, s1)
          else let s2 = emit ConsoleError s1 in
            if retryCount < maxRetries
            then processImage env imageUrl (retryCount + 1)
                   (emit (SetTimeout (retryDelay * 2 ^ retryCount)) s2)
            else (Inl error, s2))"
  by pat_completeness auto
termination
  by (relation "measure (\<lambda>(env, imageUrl, retryCount, s). maxRetries - retryCount)") auto

section \<open>handleSingleProcess\<close>

text \<open>
  One call of the handler together with the episode it awaits, run to its end. The guard
  reads \<open>isProcessing\<close> as the state has it; in the code the callback reads the value it
  captured when it was last created, so the properties below are stated for a state in
  which no episode of this handler is under way. The revoke of the replaced result is
  logged when the handler resumes, the code runs it inside the state updater.
\<close>

definition handleSingleProcess :: "(nat \<Rightarrow> attempt) \<Rightarrow> state \<Rightarrow> state" where
  "handleSingleProcess env s =
     (if \<not> currentImageIndex s < length (images s) \<or> isProcessing s then s
      else
        let i = currentImageIndex s;
            s1 = setProgress ProgressReset 0 (s\<lparr>isProcessing := True\<rparr>);
            s4 = (case processImage env (original (images s ! i)) 0 s1 of
                (Inr processedUrl, s2) \<Rightarrow>
                  let s3 = (if i < length (images s2)
                            then cleanup (processed (images s2 ! i)) s2 else s2)
                  in emit (ToastCall ProcessSuccess)
                       (s3\<lparr>images := map_at i
                          (\<lambda>img. img\<lparr>processed := Some processedUrl, status := Completed\<rparr>)
                          (images s3)\<rparr>)
              | (Inl error, s2) \<Rightarrow>
                  emit (ToastCall ProcessingFailed)
                    ((emit ConsoleError s2)\<lparr>images := map_at i
                        (\<lambda>img. img\<lparr>status := Failed\<rparr>) (images s2)\<rparr>))
        in setProgress ProgressReset 0 (s4\<lparr>isProcessing := False\<rparr>))"


section \<open>Observations on the call log\<close>

fun is_transform :: "call \<Rightarrow> bool" where
  "is_transform (RemoveBackground _ _) = True"
| "is_transform _ = False"

definition transform_calls :: "state \<Rightarrow> nat" where
  "transform_calls s = length (filter is_transform (calls s))"

text \<open>An attempt whose error sends the episode into the backoff branch.\<close>

fun retryable :: "attempt \<Rightarrow> bool" where
  "retryable (FetchFails e) = (err_name e \<noteq> ''AbortError'')"
| "retryable (TransformFails ps e) = (err_name e \<noteq> ''AbortError'')"
| "retryable (TransformOk ps) = False"

text \<open>The transform is called and rejects with an error other than an abort.\<close>

fun transform_fails :: "attempt \<Rightarrow> bool" where
  "transform_fails (TransformFails ps e) = (err_name e \<noteq> ''AbortError'')"
| "transform_fails _ = False"

fun attempt_calls :: "attempt \<Rightarrow> url \<Rightarrow> call list" where
  "attempt_calls (FetchFails e) u = [Fetch u None]"
| "attempt_calls (TransformFails ps e) u =
     [Fetch u None, RemoveBackground u None] @ map ProgressCallback ps"
| "attempt_calls (TransformOk ps) u =
     [Fetch u None, RemoveBackground u None] @ map ProgressCallback ps"

section \<open>Sample inputs\<close>

definition sample_job :: ProcessedImage where
  "sample_job = \<lparr>original = BlobUrl 1, preview = BlobUrl 0, processed = None,
     name = ''a.png'', status = Pending, retries = 0\<rparr>"

definition sample_state :: state where
  "sample_state = init\<lparr>images := [sample_job], nextBlob := 2\<rparr>"

definition always_failing :: "nat \<Rightarrow> attempt" where
  "always_failing k = TransformFails [] (JsError ''Error'' ''inference failed'')"

fun is_attempt_or_delay :: "call \<Rightarrow> bool" where
  "is_attempt_or_delay (Fetch _ _) = True"
| "is_attempt_or_delay (SetTimeout _) = True"
| "is_attempt_or_delay _ = False"

definition failures :: "(nat \<Rightarrow> attempt) \<Rightarrow> nat" where
  "failures env = length (takeWhile (\<lambda>k. retryable (env k)) [0..<maxRetries])"

definition new_calls :: "state \<Rightarrow> state \<Rightarrow> call list" where
  "new_calls s s' = drop (length (calls s)) (calls s')"

fun aborted :: "attempt \<Rightarrow> bool" where
  "aborted (FetchFails e) = (err_name e = ''AbortError'')"
| "aborted (TransformFails ps e) = (err_name e = ''AbortError'')"
| "aborted (TransformOk ps) = False"

definition fails_twice :: "nat \<Rightarrow> attempt" where
  "fails_twice k = (if k < 2 then TransformFails [] (JsError ''Error'' ''inference failed'')
                    else TransformOk [100])"

definition aborting :: "nat \<Rightarrow> attempt" where
  "aborting k = TransformFails [] (JsError ''AbortError'' ''The operation was aborted'')"

definition aborted_on_retry :: "nat \<Rightarrow> attempt" where
  "aborted_on_retry k = (if k = 0 then TransformFails [] (JsError ''Error'' ''inference failed'')
     else FetchFails (JsError ''AbortError'' ''The operation was aborted''))"

section \<open>handleImageUpload\<close>

record upload_file =
  file_type :: string
  file_size :: nat
  file_name :: string

definition valid_file :: "upload_file \<Rightarrow> bool" where
  "valid_file f = (file_type f \<in> set upload_types \<and> file_size f \<le> maxSize)"

text \<open>
  Each callback of \<^verbatim>\<open>validFiles.map\<close> runs up to its \<^verbatim>\<open>await\<close> before any compression
  settles: the previews are created first, in file order.
\<close>

fun create_previews :: "upload_file list \<Rightarrow> state \<Rightarrow> url list \<times> state" where
  "create_previews [] s = ([], s)"
| "create_previews (f # fs) s =
     (case createObjectURL s of (p, s1) \<Rightarrow>
        (case create_previews fs s1 of (ps, s2) \<Rightarrow> (p # ps, s2)))"

text \<open>
  The compression collaborator answers the \<open>j\<close>-th valid file with \<open>cenv j\<close>: \<open>None\<close>
  when it resolves, the error when it rejects. The callbacks are resumed in file order.
  A resolved one yields a Job, a rejected one revokes its preview and rethrows. Every
  callback is resumed before the handler goes on, so the revokes are all logged before
  the report of the failure; in the code those after the first rejection come later.
\<close>

fun compress_all ::
  "(upload_file \<times> url) list \<Rightarrow> nat \<Rightarrow> (nat \<Rightarrow> jserror option) \<Rightarrow> state
     \<Rightarrow> (jserror + ProcessedImage) list \<times> state" where
  "compress_all [] j cenv s = ([], s)"
| "compress_all ((f, p) # fps) j cenv s =
     (case cenv j of
        None \<Rightarrow>
          (case createObjectURL s of (u, s1) \<Rightarrow>
             (case compress_all fps (Suc j) cenv s1 of (rs, s2) \<Rightarrow>
                (Inr \<lparr>original = u, preview = p, processed = None, name = file_name f,
                       status = Pending, retries = 0\<rparr> # rs, s2)))
      | Some e \<Rightarrow>
          (case compress_all fps (Suc j) cenv (cleanup (Some p) s) of (rs, s2) \<Rightarrow>
             (Inl e # rs, s2)))"

text \<open>\<^verbatim>\<open>Promise.all\<close>: the array of values when every promise resolved.\<close>

fun promise_all :: "('e + 'a) list \<Rightarrow> 'a list option" where
  "promise_all [] = Some []"
| "promise_all (Inl e # rs) = None"
| "promise_all (Inr x # rs) = (case promise_all rs of None \<Rightarrow> None | Some xs \<Rightarrow> Some (x # xs))"

definition handleImageUpload :: "upload_file list \<Rightarrow> (nat \<Rightarrow> jserror option) \<Rightarrow> state \<Rightarrow> state" where
  "handleImageUpload files cenv s =
     (let validFiles = filter valid_file files in
      if length validFiles = 0 then emit (ToastCall InvalidFiles) s
      else
        case create_previews validFiles s of (ps, s1) \<Rightarrow>
        case compress_all (zip validFiles ps) 0 cenv s1 of (rs, s2) \<Rightarrow>
        case promise_all rs of
          Some newImages \<Rightarrow>
            emit (ToastCall (UploadSuccessful (length newImages)))
              (s2\<lparr>images := images s2 @ newImages\<rparr>)
        | None \<Rightarrow> emit (ToastCall UploadFailed) (emit ConsoleError s2))"

definition jpeg :: "string \<Rightarrow> nat \<Rightarrow> upload_file" where
  "jpeg n sz = \<lparr>file_type = ''image/jpeg'', file_size = sz, file_name = n\<rparr>"


fun is_toast :: "call \<Rightarrow> bool" where
  "is_toast (ToastCall _) = True"
| "is_toast _ = False"

definition oversized :: upload_file where
  "oversized = jpeg ''big.jpg'' (11 * 1024 * 1024)"

definition three_valid :: "upload_file list" where
  "three_valid = [jpeg ''a.jpg'' 100, jpeg ''b.jpg'' 200, jpeg ''c.jpg'' 300]"

definition second_fails :: "nat \<Rightarrow> jserror option" where
  "second_fails j = (if j = 1 then Some (JsError ''Error'' ''compression failed'') else None)"

section \<open>handleBulkProcess: the batch runner\<close>

text \<open>
  The jobs of one wave run interleaved: each callback of \<^verbatim>\<open>batch.map\<close> is suspended at an
  \<^verbatim>\<open>await\<close> of processImage and resumed when the environment settles what it waits for.
  A task is one suspended callback: the index and image it captured, the \<open>retryCount\<close> of
  the processImage call in flight, and the \<^verbatim>\<open>await\<close> it is suspended at.
\<close>

datatype phase = AwaitFetch | AwaitTransform | AwaitTimer | Settled

record task =
  t_index :: nat
  t_img :: ProcessedImage
  t_retry :: nat
  t_phase :: phase

text \<open>
  The locals of one run of handleBulkProcess: \<open>pending\<close>, the \<open>images\<close> array its closure
  captured (\<open>snapshot\<close>), the loop variable \<open>i\<close> (\<open>offset\<close>), the counter \<open>processed\<close>,
  the callbacks of the current wave, and whether the run is still going.
\<close>

record bulk =
  pending :: "ProcessedImage list"
  snapshot :: "ProcessedImage list"
  offset :: nat
  processedCount :: nat
  tasks :: "task list"
  running :: bool

definition idle :: bulk where
  "idle = \<lparr>pending = [], snapshot = [], offset = 0, processedCount = 0, tasks = [],
     running = False\<rparr>"

text \<open>What the environment does: it settles the promise a task of the wave waits for, or
  invokes the progress callback of a transform call in flight. The number is the task's
  position in the wave.\<close>

datatype event =
    FetchDone nat "jserror option"
  | Progress nat int
  | TransformDone nat "jserror option"
  | TimerFired nat

fun slot_of :: "event \<Rightarrow> nat" where
  "slot_of (FetchDone k _) = k"
| "slot_of (Progress k _) = k"
| "slot_of (TransformDone k _) = k"
| "slot_of (TimerFired k) = k"

fun awaits :: "event \<Rightarrow> phase" where
  "awaits (FetchDone _ _) = AwaitFetch"
| "awaits (Progress _ _) = AwaitTransform"
| "awaits (TransformDone _ _) = AwaitTransform"
| "awaits (TimerFired _) = AwaitTimer"

text \<open>How a piece of processImage ends: suspended at an \<^verbatim>\<open>await\<close>, returned, or thrown.\<close>

datatype outcome = Suspended phase | Returned url | Thrown jserror

text \<open>Entry of processImage up to \<^verbatim>\<open>await fetch\<close> (lines 71 to 83).\<close>

definition pi_enter :: "url \<Rightarrow> nat \<Rightarrow> state \<Rightarrow> outcome \<times> state" where
  "pi_enter imageUrl retryCount s =
     (if retryCount \<ge> maxRetries then (Thrown max_retries_exceeded, s)
      else (Suspended AwaitFetch, start_attempt imageUrl s))"

text \<open>The \<^verbatim>\<open>catch\<close> block of processImage up to its timer (lines 99 to 115).\<close>

definition pi_catch :: "url \<Rightarrow> nat \<Rightarrow> jserror \<Rightarrow> state \<Rightarrow> outcome \<times> state" where
  "pi_catch imageUrl retryCount error s =
     (if err_name error = ''AbortError'' then (Returned imageUrl, s)
      else let s1 = emit ConsoleError s in
        if retryCount < maxRetries
        then (Suspended AwaitTimer, emit (SetTimeout (retryDelay * 2 ^ retryCount)) s1)
        else (Thrown error, s1))"

text \<open>The part of processImage that an event resumes.\<close>

fun pi_resume :: "event \<Rightarrow> url \<Rightarrow> nat \<Rightarrow> state \<Rightarrow> outcome \<times> state" where
  "pi_resume (FetchDone _ None) u r s = (Suspended AwaitTransform, call_transform u s)"
| "pi_resume (FetchDone _ (Some e)) u r s = pi_catch u r e s"
| "pi_resume (Progress _ p) u r s = (Suspended AwaitTransform, report p s)"
| "pi_resume (TransformDone _ None) u r s =
     (case createObjectURL s of (v, s1) \<Rightarrow> (Returned v, s1))"
| "pi_resume (TransformDone _ (Some e)) u r s = pi_catch u r e s"
| "pi_resume (TimerFired _) u r s = pi_enter u (Suc r) s"

text \<open>The callback after \<^verbatim>\<open>await processImage\<close>: lines 246 to 255, and its \<^verbatim>\<open>catch\<close>,
  lines 257 to 261.\<close>

definition job_done :: "task \<Rightarrow> url \<Rightarrow> state \<times> bulk \<Rightarrow> state \<times> bulk" where
  "job_done t processedUrl sb =
     (case sb of (s, b) \<Rightarrow>
        let index = t_index t;
            s1 = (if index < length (images s)
                  then cleanup (processed (images s ! index)) s else s);
            s2 = s1\<lparr>images := map_at index
                   (\<lambda>x. x\<lparr>processed := Some processedUrl, status := Completed\<rparr>) (images s1)\<rparr>;
            n = Suc (processedCount b)
        in (setProgress (BatchProgress n (length (pending b)))
              (percent n (length (pending b))) s2,
            b\<lparr>processedCount := n\<rparr>))"

definition job_failed :: "task \<Rightarrow> state \<times> bulk \<Rightarrow> state \<times> bulk" where
  "job_failed t sb =
     (case sb of (s, b) \<Rightarrow>
        ((emit ConsoleError s)\<lparr>images := map_at (t_index t)
            (\<lambda>x. x\<lparr>status := Failed\<rparr>) (images s)\<rparr>, b))"

definition set_task :: "nat \<Rightarrow> task \<Rightarrow> bulk \<Rightarrow> bulk" where
  "set_task k t b = b\<lparr>tasks := (tasks b)[k := t]\<rparr>"

definition continue :: "nat \<Rightarrow> task \<Rightarrow> outcome \<times> state \<Rightarrow> bulk \<Rightarrow> state \<times> bulk" where
  "continue k t os b =
     (case os of
        (Suspended ph, s) \<Rightarrow> (s, set_task k (t\<lparr>t_phase := ph\<rparr>) b)
      | (Returned v, s) \<Rightarrow> job_done t v (s, set_task k (t\<lparr>t_phase := Settled\<rparr>) b)
      | (Thrown e, s) \<Rightarrow> job_failed t (s, set_task k (t\<lparr>t_phase := Settled\<rparr>) b))"

definition deliver :: "event \<Rightarrow> state \<times> bulk \<Rightarrow> state \<times> bulk" where
  "deliver ev sb =
     (case sb of (s, b) \<Rightarrow>
        let k = slot_of ev in
        if k < length (tasks b) \<and> t_phase (tasks b ! k) = awaits ev
        then let t = tasks b ! k;
                 t1 = (case ev of TimerFired _ \<Rightarrow> t\<lparr>t_retry := Suc (t_retry t)\<rparr> | _ \<Rightarrow> t)
             in continue k t1 (pi_resume ev (original (t_img t)) (t_retry t) s) b
        else (s, b))"

text \<open>\<^verbatim>\<open>images.findIndex\<close>; \<open>None\<close> stands for \<open>-1\<close>.\<close>

fun findIndex :: "('a \<Rightarrow> bool) \<Rightarrow> 'a list \<Rightarrow> nat option" where
  "findIndex P [] = None"
| "findIndex P (x # xs) =
     (if P x then Some 0 else case findIndex P xs of None \<Rightarrow> None | Some i \<Rightarrow> Some (Suc i))"

text \<open>\<^verbatim>\<open>batch.map(async (img) => ...)\<close>: every callback runs up to its first \<^verbatim>\<open>await\<close>,
  in order. A callback that returns at once (\<open>index = -1\<close>) leaves nothing behind.\<close>

fun start_jobs :: "ProcessedImage list \<Rightarrow> state \<times> bulk \<Rightarrow> state \<times> bulk" where
  "start_jobs [] sb = sb"
| "start_jobs (img # batch) (s, b) =
     (case findIndex (\<lambda>x. original x = original img) (snapshot b) of
        None \<Rightarrow> start_jobs batch (s, b)
      | Some index \<Rightarrow>
          let s1 = s\<lparr>images := map_at index (\<lambda>x. x\<lparr>status := Processing\<rparr>) (images s)\<rparr>;
              t = \<lparr>t_index = index, t_img = img, t_retry = 0, t_phase = AwaitFetch\<rparr>
          in start_jobs batch
               (continue (length (tasks b)) t (pi_enter (original img) 0 s1)
                  (b\<lparr>tasks := tasks b @ [t]\<rparr>)))"

definition settled :: "task \<Rightarrow> bool" where
  "settled t = (t_phase t = Settled)"

text \<open>After the loop: the toast of line 266 and the \<^verbatim>\<open>finally\<close> block.\<close>

definition finish :: "state \<times> bulk \<Rightarrow> state \<times> bulk" where
  "finish sb =
     (case sb of (s, b) \<Rightarrow>
        (setProgress ProgressReset 0
           ((emit (ToastCall (BulkComplete (processedCount b) (length (pending b)))) s)
              \<lparr>isBulkProcessing := False\<rparr>),
         b\<lparr>running := False, tasks := []\<rparr>))"

lemma start_jobs_pending:
  "pending (snd (start_jobs batch sb)) = pending (snd sb) \<and>
   offset (snd (start_jobs batch sb)) = offset (snd sb)"
proof (induction batch sb rule: start_jobs.induct)
  case (1 sb)
  then show ?case by simp
next
  case (2 img batch s b)
  show ?case
  proof (cases "findIndex (\<lambda>x. original x = original img) (snapshot b)")
    case None
    with 2(1) show ?thesis by simp
  next
    case (Some index)
    from 2(2) [OF Some refl refl] Some show ?thesis
      by (auto simp: continue_def pi_enter_def set_task_def job_failed_def Let_def
          split: prod.splits outcome.splits)
  qed
qed

text \<open>The \<^verbatim>\<open>for\<close> loop from \<open>i = offset\<close>: start the wave; \<^verbatim>\<open>await Promise.all\<close> suspends the
  loop while a callback of the wave is unsettled.\<close>

function run_waves :: "state \<times> bulk \<Rightarrow> state \<times> bulk" where
  "run_waves sb =
     (if offset (snd sb) < length (pending (snd sb)) then
        let sb1 = start_jobs (take batchSize (drop (offset (snd sb)) (pending (snd sb))))
                    (fst sb, (snd sb)\<lparr>tasks := []\<rparr>)
        in if list_all settled (tasks (snd sb1))
           then run_waves (fst sb1, (snd sb1)\<lparr>offset := offset (snd sb1) + batchSize\<rparr>)
           else sb1
      else finish sb)"
  by pat_completeness auto
termination
proof (relation "measure (\<lambda>sb. length (pending (snd sb)) - offset (snd sb))")
  show "wf (measure (\<lambda>sb. length (pending (snd sb)) - offset (snd sb)))" by simp
next
  fix sb :: "state \<times> bulk" and sb1
  assume lt: "offset (snd sb) < length (pending (snd sb))"
    and sb1: "sb1 = start_jobs (take batchSize (drop (offset (snd sb)) (pending (snd sb))))
                    (fst sb, (snd sb)\<lparr>tasks := []\<rparr>)"
  have "pending (snd sb1) = pending (snd sb)" "offset (snd sb1) = offset (snd sb)"
    using start_jobs_pending [of _ "(fst sb, (snd sb)\<lparr>tasks := []\<rparr>)"] sb1 by simp_all
  then show "((fst sb1, (snd sb1)\<lparr>offset := offset (snd sb1) + batchSize\<rparr>), sb)
      \<in> measure (\<lambda>sb. length (pending (snd sb)) - offset (snd sb))"
    using lt by (simp add: batchSize_def)
qed

definition handleBulkProcess :: "state \<Rightarrow> state \<times> bulk" where
  "handleBulkProcess s =
     (if isBulkProcessing s then (s, idle)
      else let p = filter (\<lambda>img. processed img = None) (images s) in
        if length p = 0 then (s, idle)
        else run_waves (s\<lparr>isBulkProcessing := True\<rparr>,
               \<lparr>pending = p, snapshot = images s, offset = 0, processedCount = 0,
                tasks = [], running = True\<rparr>))"

text \<open>One event of the environment during a run. When it settles the last callback of
  the wave, \<^verbatim>\<open>Promise.all\<close> resolves and the loop goes on in the same turn.\<close>

definition bulk_step :: "event \<Rightarrow> state \<times> bulk \<Rightarrow> state \<times> bulk" where
  "bulk_step ev sb =
     (if running (snd sb) then
        let sb1 = deliver ev sb in
        if list_all settled (tasks (snd sb1))
        then run_waves (fst sb1, (snd sb1)\<lparr>offset := offset (snd sb1) + batchSize\<rparr>)
        else sb1
      else sb)"

definition bulk_run :: "event list \<Rightarrow> state \<times> bulk \<Rightarrow> state \<times> bulk" where
  "bulk_run evs sb = fold bulk_step evs sb"

definition job :: "nat \<Rightarrow> ProcessedImage" where
  "job n = \<lparr>original = BlobUrl (2 * n + 1), preview = BlobUrl (2 * n), processed = None,
     name = ''img'', status = Pending, retries = 0\<rparr>"

definition three_jobs :: state where
  "three_jobs = init\<lparr>images := [job 0, job 1, job 2], nextBlob := 6\<rparr>"

definition boom :: jserror where
  "boom = JsError ''Error'' ''inference failed''"

definition wave :: "bulk \<Rightarrow> ProcessedImage list" where
  "wave b = take batchSize (drop (offset b) (pending b))"

definition terminal :: "status \<Rightarrow> bool" where
  "terminal st = (st = Completed \<or> st = Failed)"

definition status_of :: "state \<Rightarrow> url \<Rightarrow> status option" where
  "status_of s u = map_option status (find (\<lambda>img. original img = u) (images s))"

fun is_batch_progress :: "call \<Rightarrow> bool" where
  "is_batch_progress (BatchProgress _ _) = True"
| "is_batch_progress _ = False"

definition batch_reports :: "state \<Rightarrow> call list" where
  "batch_reports s = filter is_batch_progress (calls s)"

text \<open>What a Job's status says about its result.\<close>

definition jok :: "ProcessedImage \<Rightarrow> bool" where
  "jok img = (case status img of
      Completed \<Rightarrow> processed img \<noteq> None
    | Failed \<Rightarrow> True
    | Pending \<Rightarrow> processed img = None
    | Processing \<Rightarrow> processed img = None)"

text \<open>
  The invariant of a batch run. \<open>batch\<close> holds the jobs of the current wave whose callback
  has not started yet, \<open>C0\<close> the call log at the start of the run; \<open>cnt\<close> switches on the
  part that counts completed jobs.
\<close>

definition ginv :: "call list \<Rightarrow> bool \<Rightarrow> ProcessedImage list \<Rightarrow> state \<times> bulk \<Rightarrow> bool" where
  "ginv C0 cnt batch sb = (case sb of (s, b) \<Rightarrow>
     map original (images s) = map original (snapshot b) \<and>
     distinct (map original (snapshot b)) \<and>
     distinct (map original (pending b)) \<and>
     original ` set (pending b) \<subseteq> original ` set (snapshot b) \<and>
     map t_img (tasks b) @ batch = wave b \<and>
     (\<forall>k < length (tasks b).
         t_index (tasks b ! k) < length (images s) \<and>
         original (images s ! t_index (tasks b ! k)) = original (t_img (tasks b ! k)) \<and>
         (settled (tasks b ! k) \<longrightarrow>
            (\<exists>st. status_of s (original (t_img (tasks b ! k))) = Some st \<and> terminal st)) \<and>
         (\<not> settled (tasks b ! k) \<longrightarrow>
            status_of s (original (t_img (tasks b ! k))) = Some Processing)) \<and>
     (\<forall>u. status_of s u = Some Processing \<longrightarrow> u \<in> original ` set (wave b)) \<and>
     (\<forall>q \<in> set (take (offset b) (pending b)).
         \<exists>st. status_of s (original q) = Some st \<and> terminal st) \<and>
     (\<exists>Y. calls s = C0 @ Y \<and>
          filter is_batch_progress Y =
            map (\<lambda>j. BatchProgress j (length (pending b))) [1..<Suc (processedCount b)]) \<and>
     (if running b then isBulkProcessing s
      else progress s = 0 \<and> \<not> isBulkProcessing s \<and> tasks b = []) \<and>
     filter (\<lambda>img. processed img = None) (snapshot b) = pending b \<and>
     (cnt \<longrightarrow>
        (\<forall>q \<in> set (drop (offset b + batchSize) (pending b)) \<union> set batch.
            status_of s (original q) \<noteq> Some Completed) \<and>
        processedCount b =
          card {u \<in> original ` set (pending b). status_of s u = Some Completed} \<and>
        (\<forall>j < length (images s). status (images s ! j) \<noteq> Completed \<longrightarrow>
            processed (images s ! j) = processed (snapshot b ! j)) \<and>
        (\<forall>j < length (images s). jok (images s ! j))))"

definition two_jobs :: state where
  "two_jobs = init\<lparr>images := [job 0, job 1], nextBlob := 4\<rparr>"

definition first_completes :: "event list" where
  "first_completes = [FetchDone 0 None, FetchDone 1 None, TransformDone 0 None]"

definition second_gives_up :: "event list" where
  "second_gives_up = [TransformDone 1 (Some boom), TimerFired 1, FetchDone 1 (Some boom),
     TimerFired 1, FetchDone 1 (Some boom), TimerFired 1]"

section \<open>The abort controller\<close>

text \<open>Two states that differ at most in the \<^verbatim>\<open>aborted\<close> flags of the controllers.\<close>

definition same_but_flags :: "state \<Rightarrow> state \<Rightarrow> bool" where
  "same_but_flags s t =
     (images s = images t \<and> currentImageIndex s = currentImageIndex t \<and>
      isProcessing s = isProcessing t \<and> isBulkProcessing s = isBulkProcessing t \<and>
      progress s = progress t \<and> length (controllers s) = length (controllers t) \<and>
      abortController s = abortController t \<and> nextBlob s = nextBlob t \<and>
      calls s = calls t)"

text \<open>Every controller but the one in the shared ref has been aborted.\<close>

definition single_flight_ctrl :: "state \<Rightarrow> bool" where
  "single_flight_ctrl s = (case abortController s of
      None \<Rightarrow> controllers s = []
    | Some c \<Rightarrow> length (controllers s) = Suc c \<and> take c (controllers s) = replicate c True)"

text \<open>A call to a collaborator that was handed an abort signal.\<close>

fun signalled :: "call \<Rightarrow> bool" where
  "signalled (Fetch _ (Some _)) = True"
| "signalled (RemoveBackground _ (Some _)) = True"
| "signalled _ = False"

definition signalled_calls :: "state \<Rightarrow> call list" where
  "signalled_calls s = filter signalled (calls s)"

fun url_id :: "url \<Rightarrow> nat" where
  "url_id (BlobUrl n) = n"

text \<open>What holds of a Job's result whatever the handlers do: a Completed Job has one, a
  Pending Job has none.\<close>

definition recorded_ok :: "ProcessedImage \<Rightarrow> bool" where
  "recorded_ok img = (case status img of
      Completed \<Rightarrow> processed img \<noteq> None
    | Pending \<Rightarrow> processed img = None
    | _ \<Rightarrow> True)"

text \<open>What every step of the component keeps: it hands no signal to a collaborator, it
  never takes a URL back, it keeps the controllers in the shape above, and it keeps
  \<open>recorded_ok\<close> of every Job.\<close>

definition steady :: "state \<Rightarrow> state \<Rightarrow> bool" where
  "steady s t = (signalled_calls t = signalled_calls s \<and> nextBlob s \<le> nextBlob t \<and>
     (single_flight_ctrl s \<longrightarrow> single_flight_ctrl t) \<and>
     (list_all recorded_ok (images s) \<longrightarrow> list_all recorded_ok (images t)))"

text \<open>A step of the batch runner does the same on two states that differ in controller
  flags only, and keeps what \<open>steady\<close> says.\<close>

definition lockstep :: "(state \<times> bulk \<Rightarrow> state \<times> bulk) \<Rightarrow> bool" where
  "lockstep F = (\<forall>s s' b. steady s (fst (F (s, b))) \<and>
     (same_but_flags s s' \<longrightarrow>
        same_but_flags (fst (F (s, b))) (fst (F (s', b))) \<and> snd (F (s, b)) = snd (F (s', b))))"





section \<open>The other handlers, and sequences of operations\<close>

text \<open>handleDelete, lines 285 to 304.\<close>

definition handleDelete :: "state \<Rightarrow> state" where
  "handleDelete s =
     (if \<not> currentImageIndex s < length (images s) then s
      else
        let i = currentImageIndex s;
            img = images s ! i;
            newImages = map snd (filter (\<lambda>(idx, x). idx \<noteq> i) (enumerate 0 (images s)));
            s1 = s\<lparr>images := newImages,
                   currentImageIndex :=
                     (if i \<ge> length newImages then max 0 (length newImages - 1) else i)\<rparr>;
            s2 = cleanup (processed img)
                   (cleanup (Some (preview img)) (cleanup (Some (original img)) s1))
        in emit (ToastCall ImageDeleted) s2)"

text \<open>The cleanup of the effect of lines 56 to 67: it revokes the URLs of every Job and
  aborts the controller in the shared ref.\<close>

definition effect_cleanup :: "state \<Rightarrow> state" where
  "effect_cleanup s =
     abort_current
       (fold (\<lambda>img z. cleanup (processed img)
                 (cleanup (Some (preview img)) (cleanup (Some (original img)) z)))
          (images s) s)"

text \<open>
  What can happen to the component, one at a time: a handler runs, the environment
  settles something a batch run waits for, or the effect cleanup runs. The episode of
  handleSingleProcess and the intake run to their end within one operation; a batch run
  is spread over the events that drive it, and any operation may come between them.
\<close>

datatype op =
    Upload "upload_file list" "nat \<Rightarrow> jserror option"
  | ProcessOne "nat \<Rightarrow> attempt"
  | ProcessAll
  | Event event
  | Delete
  | Select nat
  | Cleanup

fun exec :: "op \<Rightarrow> state \<times> bulk \<Rightarrow> state \<times> bulk" where
  "exec (Upload files cenv) (s, b) = (handleImageUpload files cenv s, b)"
| "exec (ProcessOne env) (s, b) = (handleSingleProcess env s, b)"
| "exec ProcessAll (s, b) = (if isBulkProcessing s then (s, b) else handleBulkProcess s)"
| "exec (Event ev) (s, b) = bulk_step ev (s, b)"
| "exec Delete (s, b) = (handleDelete s, b)"
| "exec (Select idx) (s, b) = (s\<lparr>currentImageIndex := idx\<rparr>, b)"
| "exec Cleanup (s, b) = (effect_cleanup s, b)"

definition run_ops :: "op list \<Rightarrow> state \<times> bulk \<Rightarrow> state \<times> bulk" where
  "run_ops ops sb = fold exec ops sb"



text \<open>The worker of \<^verbatim>\<open>process.worker.ts\<close>: the fetch and the transform call it makes, and the
  messages it posts. \<open>'p\<close> is the type of the progress values handed to the callback.\<close>

datatype 'p message = ProgressMessage 'p | CompleteMessage url | ErrorMessage string

datatype 'p worker_run =
    WorkerFetchFails jserror
  | WorkerTransformFails "'p list" jserror
  | WorkerTransformOk "'p list"

definition worker_onmessage :: "'p worker_run \<Rightarrow> url \<Rightarrow> nat \<Rightarrow> call list \<times> 'p message list" where
  "worker_onmessage a imageData n = (case a of
      WorkerFetchFails e \<Rightarrow> ([Fetch imageData None], [ErrorMessage (err_message e)])
    | WorkerTransformFails ps e \<Rightarrow>
        ([Fetch imageData None, RemoveBackground imageData None],
         map ProgressMessage ps @ [ErrorMessage (err_message e)])
    | WorkerTransformOk ps \<Rightarrow>
        ([Fetch imageData None, RemoveBackground imageData None],
         map ProgressMessage ps @ [CompleteMessage (BlobUrl n)]))"

text \<open>An upload of one image, an episode that completes on its third attempt, and a
  second episode of the same Job whose every attempt fails.\<close>

definition reprocess_fails :: "op list" where
  "reprocess_fails = [Upload [jpeg ''a.jpg'' 100] (\<lambda>j. None), ProcessOne fails_twice,
     ProcessOne always_failing]"

text \<open>A batch run over three jobs during which the user selects the third job, still
  waiting for its wave, and processes it singly.\<close>

definition single_during_run :: "op list" where
  "single_during_run = [ProcessAll, Select 2, ProcessOne (\<lambda>k. TransformOk [100]),
     Event (FetchDone 0 None), Event (TransformDone 0 None),
     Event (FetchDone 1 None), Event (TransformDone 1 None)]"



section \<open>Properties of one episode\<close>

declare processImage.simps [simp del]

lemma fold_report_calls: "calls (fold report ps s) = calls s @ map ProgressCallback ps"
  by (induction ps arbitrary: s) (simp_all add: report_def setProgress_def emit_def)

lemma fold_report_frame:
  "images (fold report ps s) = images s"
  "currentImageIndex (fold report ps s) = currentImageIndex s"
  "isProcessing (fold report ps s) = isProcessing s"
  "isBulkProcessing (fold report ps s) = isBulkProcessing s"
  "controllers (fold report ps s) = controllers s"
  "abortController (fold report ps s) = abortController s"
  "nextBlob (fold report ps s) = nextBlob s"
  by (induction ps arbitrary: s; simp add: report_def setProgress_def emit_def)+

lemma try_body_calls: "calls (snd (try_body a u s)) = calls s @ attempt_calls a u"
  by (cases a) (simp_all add: try_body_def start_attempt_def call_transform_def emit_def
      new_controller_def abort_current_def fold_report_calls split: option.splits)

lemma try_body_frame:
  "images (snd (try_body a u s)) = images s"
  "currentImageIndex (snd (try_body a u s)) = currentImageIndex s"
  "isProcessing (snd (try_body a u s)) = isProcessing s"
  "isBulkProcessing (snd (try_body a u s)) = isBulkProcessing s"
  by (cases a; simp add: try_body_def start_attempt_def call_transform_def emit_def
      new_controller_def abort_current_def fold_report_frame split: option.splits)+

lemma try_body_result:
  "fst (try_body a u s) = (case a of FetchFails e \<Rightarrow> Some e | TransformFails ps e \<Rightarrow> Some e | TransformOk ps \<Rightarrow> None)"
  by (cases a) (simp_all add: try_body_def)

lemma processImage_frame:
  "images (snd (processImage env u r s)) = images s \<and>
   currentImageIndex (snd (processImage env u r s)) = currentImageIndex s \<and>
   isProcessing (snd (processImage env u r s)) = isProcessing s \<and>
   isBulkProcessing (snd (processImage env u r s)) = isBulkProcessing s"
proof (induction env u r s rule: processImage.induct)
  case (1 env u r s)
  show ?case
  proof (cases "try_body (env r) u s")
    case (Pair res s1)
    have fr: "images s1 = images s" "currentImageIndex s1 = currentImageIndex s"
      "isProcessing s1 = isProcessing s" "isBulkProcessing s1 = isBulkProcessing s"
      using try_body_frame [of "env r" u s] Pair by simp_all
    show ?thesis
      using 1 [OF _ Pair [symmetric]] Pair fr
      apply (subst (1 2 3 4) processImage.simps)
      apply (auto simp: createObjectURL_def emit_def split: option.splits)
      done
  qed
qed

text \<open>Unfolding one attempt.\<close>

lemma processImage_exhausted:
  "maxRetries \<le> r \<Longrightarrow> processImage env u r s = (Inl max_retries_exceeded, s)"
  by (subst processImage.simps) simp

lemma processImage_retry:
  assumes "r < maxRetries" "retryable (env r)"
  shows "processImage env u r s =
     processImage env u (Suc r)
       (emit (SetTimeout (retryDelay * 2 ^ r)) (emit ConsoleError (snd (try_body (env r) u s))))"
  using assms
  by (subst processImage.simps, cases "env r")
     (auto simp: try_body_def Let_def)

lemma processImage_ok:
  assumes "r < maxRetries" "env r = TransformOk ps"
  shows "processImage env u r s =
     (Inr (BlobUrl (nextBlob s)), (snd (try_body (env r) u s))\<lparr>nextBlob := Suc (nextBlob s)\<rparr>)"
  using assms
  by (subst processImage.simps)
     (simp add: try_body_def Let_def createObjectURL_def fold_report_frame
        call_transform_def start_attempt_def emit_def new_controller_def abort_current_def
        split: option.splits)

lemma processImage_abort:
  assumes "r < maxRetries" "env r = FetchFails e \<or> env r = TransformFails ps e"
    "err_name e = ''AbortError''"
  shows "processImage env u r s = (Inr u, snd (try_body (env r) u s))"
  using assms
  by (subst processImage.simps) (auto simp: try_body_def Let_def)

lemma transform_calls_emit:
  "transform_calls (emit c s) = transform_calls s + (if is_transform c then 1 else 0)"
  by (simp add: transform_calls_def emit_def)

lemma transform_calls_try_body:
  "transform_calls (snd (try_body a u s)) =
     transform_calls s + (case a of FetchFails e \<Rightarrow> 0 | _ \<Rightarrow> 1)"
  by (cases a) (simp_all add: transform_calls_def try_body_calls filter_map comp_def)

lemma always_failing_episode:
  assumes "\<forall>k. transform_fails (env k)" "r \<le> maxRetries"
  shows "fst (processImage env u r s) = Inl max_retries_exceeded \<and>
         transform_calls (snd (processImage env u r s)) = transform_calls s + (maxRetries - r)"
  using assms(2)
proof (induction "maxRetries - r" arbitrary: r s)
  case 0
  then show ?case by (simp add: processImage_exhausted)
next
  case (Suc n)
  then have lt: "r < maxRetries" by simp
  from assms(1) have tf: "transform_fails (env r)" by simp
  then have rt: "retryable (env r)" by (cases "env r") simp_all
  have step: "transform_calls (snd (try_body (env r) u s)) = transform_calls s + 1"
    using tf by (cases "env r") (simp_all add: transform_calls_try_body)
  have "n = maxRetries - Suc r" using Suc.hyps(2) by simp
  from Suc.hyps(1) [OF this] lt
  show ?case
    by (simp add: processImage_retry [of r env, OF lt rt] transform_calls_emit step)
qed


lemma map_at_conv:
  "map_at i f xs = (if i < length xs then xs[i := f (xs ! i)] else xs)"
  by (rule nth_equalityI) (auto simp: map_at_def nth_enumerate_eq)

lemma length_map_at [simp]: "length (map_at i f xs) = length xs"
  by (simp add: map_at_def)

lemma nth_map_at:
  "j < length xs \<Longrightarrow> map_at i f xs ! j = (if j = i then f (xs ! j) else xs ! j)"
  by (simp add: map_at_conv)

text \<open>What handleSingleProcess leaves behind, in terms of the episode's outcome.\<close>

lemma handleSingleProcess_image:
  assumes "currentImageIndex s < length (images s)" "\<not> isProcessing s"
  shows "images (handleSingleProcess env s) ! currentImageIndex s =
     (case fst (processImage env (original (images s ! currentImageIndex s)) 0
                  (setProgress ProgressReset 0 (s\<lparr>isProcessing := True\<rparr>))) of
        Inr processedUrl \<Rightarrow>
          (images s ! currentImageIndex s)\<lparr>processed := Some processedUrl, status := Completed\<rparr>
      | Inl error \<Rightarrow> (images s ! currentImageIndex s)\<lparr>status := Failed\<rparr>)"
proof -
  let ?r = "processImage env (original (images s ! currentImageIndex s)) 0
                  (setProgress ProgressReset 0 (s\<lparr>isProcessing := True\<rparr>))"
  obtain res s2 where r: "?r = (res, s2)" by (cases ?r)
  have im: "images s2 = images s"
    using processImage_frame [of env "original (images s ! currentImageIndex s)" 0
        "setProgress ProgressReset 0 (s\<lparr>isProcessing := True\<rparr>)"] r
    by (simp add: setProgress_def emit_def)
  show ?thesis
    using assms(1,2) r im
    by (cases res)
       (simp_all add: handleSingleProcess_def Let_def
          setProgress_def emit_def cleanup_def nth_map_at split: option.splits)
qed

lemma handleSingleProcess_transform_calls:
  assumes "currentImageIndex s < length (images s)" "\<not> isProcessing s"
  shows "transform_calls (handleSingleProcess env s) =
     transform_calls (snd (processImage env (original (images s ! currentImageIndex s)) 0
                  (setProgress ProgressReset 0 (s\<lparr>isProcessing := True\<rparr>))))"
proof -
  let ?r = "processImage env (original (images s ! currentImageIndex s)) 0
                  (setProgress ProgressReset 0 (s\<lparr>isProcessing := True\<rparr>))"
  obtain res s2 where r: "?r = (res, s2)" by (cases ?r)
  show ?thesis
    using assms r
    by (cases res)
       (simp_all add: handleSingleProcess_def Let_def transform_calls_def
          setProgress_def emit_def cleanup_def split: option.splits)
qed

text \<open>
  C3. When every attempt's transform call is rejected with an error that is not an abort,
  the episode started by handleSingleProcess makes exactly three transform calls
  (\<open>maxRetries = 3\<close>, no fourth call) and leaves the Job in status Failed.
\<close>

theorem retry_cap:
  assumes "currentImageIndex s < length (images s)" and "\<not> isProcessing s"
    and "\<forall>k. transform_fails (env k)"
  shows "transform_calls (handleSingleProcess env s) = transform_calls s + 3 \<and>
         status (images (handleSingleProcess env s) ! currentImageIndex s) = Failed"
proof -
  let ?s1 = "setProgress ProgressReset 0 (s\<lparr>isProcessing := True\<rparr>)"
  let ?u = "original (images s ! currentImageIndex s)"
  have ep: "fst (processImage env ?u 0 ?s1) = Inl max_retries_exceeded"
    "transform_calls (snd (processImage env ?u 0 ?s1)) = transform_calls ?s1 + (maxRetries - 0)"
    using always_failing_episode [OF assms(3), of 0 ?u ?s1] by simp_all
  have "transform_calls ?s1 = transform_calls s"
    by (simp add: transform_calls_def setProgress_def emit_def)
  with ep(2) have "transform_calls (handleSingleProcess env s) = transform_calls s + 3"
    by (simp add: handleSingleProcess_transform_calls [OF assms(1,2)] maxRetries_def)
  moreover have "status (images (handleSingleProcess env s) ! currentImageIndex s) = Failed"
    by (simp add: handleSingleProcess_image [OF assms(1,2)] ep(1))
  ultimately show ?thesis by simp
qed

theorem retry_cap_witness:
  "transform_calls (handleSingleProcess always_failing sample_state) = 3 \<and>
   status (images (handleSingleProcess always_failing sample_state) ! 0) = Failed"
  using retry_cap [of sample_state always_failing]
  by (simp add: sample_state_def init_def always_failing_def transform_calls_def)

lemma filter_attempt_calls:
  "filter is_attempt_or_delay (attempt_calls a u) = [Fetch u None]"
  by (cases a) (simp_all add: filter_map comp_def)

lemma processImage_final:
  assumes "r < maxRetries" "\<not> retryable (env r)"
  shows "calls (snd (processImage env u r s)) = calls s @ attempt_calls (env r) u"
proof (cases "env r")
  case (FetchFails e)
  with assms(2) have "err_name e = ''AbortError''" by simp
  with FetchFails show ?thesis
    by (simp add: processImage_abort [OF assms(1), of env e] try_body_calls)
next
  case (TransformFails ps e)
  with assms(2) have "err_name e = ''AbortError''" by simp
  with TransformFails show ?thesis
    using processImage_abort [OF assms(1), of env e ps u s] try_body_calls [of "env r" u s]
    by simp
next
  case (TransformOk ps)
  then show ?thesis
    using processImage_ok [OF assms(1), of env ps u s] try_body_calls [of "env r" u s]
    by simp
qed

lemma backoff_from:
  fixes env :: "nat \<Rightarrow> attempt"
  assumes "r \<le> maxRetries"
  shows "\<exists>X. calls (snd (processImage env u r s)) = calls s @ X \<and>
     filter is_attempt_or_delay X =
       concat (map (\<lambda>k. [Fetch u None, SetTimeout (retryDelay * 2 ^ k)])
         [r..<r + length (takeWhile (\<lambda>k. retryable (env k)) [r..<maxRetries])]) @
       (if r + length (takeWhile (\<lambda>k. retryable (env k)) [r..<maxRetries]) < maxRetries
        then [Fetch u None] else [])"
  using assms(1)
proof (induction "maxRetries - r" arbitrary: r s)
  case 0
  then show ?case by (simp add: processImage_exhausted)
next
  case (Suc m)
  then have lt: "r < maxRetries" by simp
  have upt: "[r..<maxRetries] = r # [Suc r..<maxRetries]"
    using lt by (simp add: upt_conv_Cons)
  show ?case
  proof (cases "retryable (env r)")
    case False
    then show ?thesis
      using lt by (simp add: upt processImage_final [of r env, OF lt False] filter_attempt_calls)
  next
    case True
    let ?s1 = "emit (SetTimeout (retryDelay * 2 ^ r)) (emit ConsoleError (snd (try_body (env r) u s)))"
    let ?n = "length (takeWhile (\<lambda>k. retryable (env k)) [Suc r..<maxRetries])"
    have m: "m = maxRetries - Suc r" using Suc.hyps(2) by simp
    from Suc.hyps(1) [OF m, of ?s1] lt
    obtain X where X: "calls (snd (processImage env u (Suc r) ?s1)) = calls ?s1 @ X"
      "filter is_attempt_or_delay X =
         concat (map (\<lambda>k. [Fetch u None, SetTimeout (retryDelay * 2 ^ k)]) [Suc r..<Suc r + ?n]) @
         (if Suc r + ?n < maxRetries then [Fetch u None] else [])"
      by auto
    have c1: "calls ?s1 = calls s @ attempt_calls (env r) u @ [ConsoleError, SetTimeout (retryDelay * 2 ^ r)]"
      by (simp add: emit_def try_body_calls)
    have len: "length (takeWhile (\<lambda>k. retryable (env k)) [r..<maxRetries]) = Suc ?n"
      using True by (simp add: upt)
    have u2: "[r..<r + Suc ?n] = r # [Suc r..<Suc r + ?n]"
      by (simp add: upt_conv_Cons del: upt_Suc)
    have c2: "calls (snd (processImage env u r s)) =
        calls s @ (attempt_calls (env r) u @ [ConsoleError, SetTimeout (retryDelay * 2 ^ r)] @ X)"
      using X(1) c1 by (simp add: processImage_retry [of r env, OF lt True])
    have f2: "filter is_attempt_or_delay
        (attempt_calls (env r) u @ [ConsoleError, SetTimeout (retryDelay * 2 ^ r)] @ X) =
        [Fetch u None, SetTimeout (retryDelay * 2 ^ r)] @ filter is_attempt_or_delay X"
      by (simp add: filter_attempt_calls)
    show ?thesis
      unfolding len u2 using c2 f2 X(2) by (simp del: upt_Suc)
  qed
qed

text \<open>
  C7. The attempts and the backoff delays of one episode, in call order: each attempt
  \<open>k\<close> that fails with a retryable error is followed by a timer of
  \<open>retryDelay * 2 ^ k\<close> (\<open>retryDelay = 1000\<close>, \<open>k\<close> from 0), and that timer precedes
  attempt \<open>k + 1\<close>. \<open>failures env\<close> never exceeds \<open>maxRetries\<close>, so \<open>k\<close> ranges over
  \<open>[0, maxRetries)\<close>; after the last of \<open>maxRetries\<close> failures the timer is still
  awaited and no further attempt follows it.
\<close>

theorem backoff_growth:
  "filter is_attempt_or_delay (new_calls s (snd (processImage env u 0 s))) =
     concat (map (\<lambda>k. [Fetch u None, SetTimeout (retryDelay * 2 ^ k)]) [0..<failures env]) @
     (if failures env < maxRetries then [Fetch u None] else [])"
  using backoff_from [of 0 env u s] by (auto simp: new_calls_def failures_def)



lemma try_body_nextBlob: "nextBlob (snd (try_body a u s)) = nextBlob s"
  by (cases a; simp add: try_body_def start_attempt_def call_transform_def emit_def
      new_controller_def abort_current_def fold_report_frame split: option.splits)

lemma processImage_aborted:
  assumes "r < maxRetries" "aborted (env r)"
  shows "processImage env u r s = (Inr u, snd (try_body (env r) u s))"
  using assms processImage_abort [of r env _ _ u s]
  by (cases "env r") auto

lemma calls_extend:
  "r \<le> maxRetries \<Longrightarrow> \<exists>X. calls (snd (processImage env u r s)) = calls s @ X"
  using backoff_from [of r env u s] by blast

lemma handleSingleProcess_calls:
  assumes "currentImageIndex s < length (images s)" "\<not> isProcessing s"
  shows "filter is_attempt_or_delay (new_calls s (handleSingleProcess env s)) =
     filter is_attempt_or_delay
       (new_calls (setProgress ProgressReset 0 (s\<lparr>isProcessing := True\<rparr>))
          (snd (processImage env (original (images s ! currentImageIndex s)) 0
                  (setProgress ProgressReset 0 (s\<lparr>isProcessing := True\<rparr>)))))"
proof -
  let ?s1 = "setProgress ProgressReset 0 (s\<lparr>isProcessing := True\<rparr>)"
  let ?r = "processImage env (original (images s ! currentImageIndex s)) 0 ?s1"
  obtain res s2 where r: "?r = (res, s2)" by (cases ?r)
  obtain X where "calls (snd ?r) = calls ?s1 @ X"
    using calls_extend [of 0 env _ ?s1] by auto
  then have X: "calls s2 = calls s @ ProgressReset # X"
    using r by (simp add: setProgress_def emit_def)
  show ?thesis
    using assms r X
    by (cases res)
       (simp_all add: handleSingleProcess_def Let_def new_calls_def
          setProgress_def emit_def cleanup_def split: option.splits)
qed

lemma fails_twice_episode:
  assumes "transform_fails (env 0)" "transform_fails (env 1)" "env 2 = TransformOk ps"
  shows "fst (processImage env u 0 s) = Inr (BlobUrl (nextBlob s)) \<and>
         transform_calls (snd (processImage env u 0 s)) = transform_calls s + 3"
proof -
  have rt: "retryable (env 0)" "retryable (env 1)"
    using assms(1,2) by (cases "env 0"; cases "env 1"; simp)+
  have lt: "0 < maxRetries" "1 < maxRetries" "2 < maxRetries"
    by (simp_all add: maxRetries_def)
  define s1 where "s1 = emit (SetTimeout (retryDelay * 2 ^ 0)) (emit ConsoleError (snd (try_body (env 0) u s)))"
  define s2 where "s2 = emit (SetTimeout (retryDelay * 2 ^ 1)) (emit ConsoleError (snd (try_body (env 1) u s1)))"
  have e0: "processImage env u 0 s = processImage env u 1 s1"
    using processImage_retry [of 0 env, OF lt(1) rt(1)] by (simp add: s1_def)
  have e1: "processImage env u 1 s1 = processImage env u 2 s2"
    using processImage_retry [of 1 env, OF lt(2) rt(2), of u s1]
    by (simp add: s2_def numeral_2_eq_2)
  have e2: "processImage env u 2 s2 =
      (Inr (BlobUrl (nextBlob s2)), (snd (try_body (env 2) u s2))\<lparr>nextBlob := Suc (nextBlob s2)\<rparr>)"
    by (rule processImage_ok [of 2 env, OF lt(3) assms(3)])
  have n: "nextBlob s2 = nextBlob s"
    by (simp add: s2_def s1_def emit_def try_body_nextBlob)
  have t1: "transform_calls s1 = transform_calls s + 1"
    using assms(1) by (cases "env 0") (simp_all add: s1_def transform_calls_emit transform_calls_try_body)
  have t2: "transform_calls s2 = transform_calls s1 + 1"
    using assms(2) by (cases "env 1") (simp_all add: s2_def transform_calls_emit transform_calls_try_body)
  have t3: "transform_calls ((snd (try_body (env 2) u s2))\<lparr>nextBlob := Suc (nextBlob s2)\<rparr>)
      = transform_calls s2 + 1"
    using transform_calls_try_body [of "env 2" u s2] assms(3)
    by (simp add: transform_calls_def)
  show ?thesis
    unfolding e0 e1 e2 using n t1 t2 t3 by simp
qed

text \<open>
  C9, as the code has it. When the transform is rejected on the first two attempts and
  resolves on the third, the episode makes exactly three transform calls and the Job ends
  Completed with the fresh result URL; the Job's \<open>retries\<close> field is not written by
  processing and keeps the value it had (0 from intake).
\<close>

theorem flaky_episode_completes:
  assumes "currentImageIndex s < length (images s)" and "\<not> isProcessing s"
    and "transform_fails (env 0)" and "transform_fails (env 1)" and "env 2 = TransformOk ps"
  shows "transform_calls (handleSingleProcess env s) = transform_calls s + 3 \<and>
         status (images (handleSingleProcess env s) ! currentImageIndex s) = Completed \<and>
         processed (images (handleSingleProcess env s) ! currentImageIndex s)
           = Some (BlobUrl (nextBlob s)) \<and>
         retries (images (handleSingleProcess env s) ! currentImageIndex s)
           = retries (images s ! currentImageIndex s)"
proof -
  let ?s1 = "setProgress ProgressReset 0 (s\<lparr>isProcessing := True\<rparr>)"
  let ?u = "original (images s ! currentImageIndex s)"
  have ep: "fst (processImage env ?u 0 ?s1) = Inr (BlobUrl (nextBlob ?s1))"
    "transform_calls (snd (processImage env ?u 0 ?s1)) = transform_calls ?s1 + 3"
    using fails_twice_episode [OF assms(3,4,5), of ?u ?s1] by simp_all
  have s1: "transform_calls ?s1 = transform_calls s" "nextBlob ?s1 = nextBlob s"
    by (simp_all add: transform_calls_def setProgress_def emit_def)
  show ?thesis
    using ep s1
    by (simp add: handleSingleProcess_transform_calls [OF assms(1,2)]
        handleSingleProcess_image [OF assms(1,2)])
qed

theorem flaky_episode_completes_witness:
  "transform_calls (handleSingleProcess fails_twice sample_state) = 3 \<and>
   status (images (handleSingleProcess fails_twice sample_state) ! 0) = Completed \<and>
   processed (images (handleSingleProcess fails_twice sample_state) ! 0) = Some (BlobUrl 2) \<and>
   retries (images (handleSingleProcess fails_twice sample_state) ! 0) = 0"
  using flaky_episode_completes [of sample_state fails_twice "[100]"]
  by (simp add: sample_state_def sample_job_def init_def fails_twice_def transform_calls_def)

text \<open>
  C9 as stated fails: after two failures and a success the Job's recorded counter is not 2.
\<close>

theorem attempt_counter_counterexample:
  "status (images (handleSingleProcess fails_twice sample_state) ! 0) = Completed \<and>
   retries (images (handleSingleProcess fails_twice sample_state) ! 0) \<noteq> 2"
proof -
  have a: "currentImageIndex sample_state < length (images sample_state)"
    "\<not> isProcessing sample_state"
    by (simp_all add: sample_state_def init_def)
  have "fst (processImage fails_twice (original (images sample_state ! currentImageIndex sample_state)) 0
     (setProgress ProgressReset 0 (sample_state\<lparr>isProcessing := True\<rparr>)))
     = Inr (BlobUrl (nextBlob (setProgress ProgressReset 0 (sample_state\<lparr>isProcessing := True\<rparr>))))"
    using fails_twice_episode [of fails_twice "[100]"] by (simp add: fails_twice_def)
  then show ?thesis
    using handleSingleProcess_image [OF a, of fails_twice]
    by (simp add: sample_state_def sample_job_def init_def)
qed

lemma aborted_not_retryable: "aborted a \<Longrightarrow> \<not> retryable a"
  by (cases a) simp_all

lemma failures_until_abort:
  assumes "k < maxRetries" "\<And>j. j < k \<Longrightarrow> retryable (env j)" "aborted (env k)"
  shows "failures env = k"
proof -
  have "[0..<maxRetries] = [0..<k] @ k # [Suc k..<maxRetries]"
    using assms(1) by (metis less_imp_le_nat upt_add_eq_append upt_conv_Cons le_add_diff_inverse zero_le plus_nat.add_0)
  moreover have "takeWhile (\<lambda>j. retryable (env j)) ([0..<k] @ k # [Suc k..<maxRetries]) =
      [0..<k] @ takeWhile (\<lambda>j. retryable (env j)) (k # [Suc k..<maxRetries])"
    by (rule takeWhile_append2) (simp add: assms(2))
  ultimately have "takeWhile (\<lambda>j. retryable (env j)) [0..<maxRetries] = [0..<k]"
    using aborted_not_retryable [OF assms(3)] by (simp del: upt_Suc)
  then show ?thesis by (simp add: failures_def)
qed

lemma abort_after_failures:
  assumes "k < maxRetries" "r \<le> k" "\<And>j. r \<le> j \<Longrightarrow> j < k \<Longrightarrow> retryable (env j)"
    "aborted (env k)"
  shows "fst (processImage env u r s) = Inr u"
  using assms(2,3)
proof (induction "k - r" arbitrary: r s)
  case 0
  then have "r = k" by simp
  then show ?case
    using processImage_aborted [of k env u s, OF assms(1,4)] by simp
next
  case (Suc n)
  then have lt: "r < k" by simp
  then have ltm: "r < maxRetries" using assms(1) by simp
  have rt: "retryable (env r)" using Suc.prems(2) [of r] lt by simp
  have n: "n = k - Suc r" using Suc.hyps(2) by simp
  have "fst (processImage env u (Suc r) z) = Inr u" for z
    using Suc.hyps(1) [OF n, of z] lt Suc.prems(2) by simp
  then show ?case
    by (simp add: processImage_retry [of r env, OF ltm rt])
qed

text \<open>
  C1, as the code has it. When the fetch or the transform call of any attempt \<open>k\<close> of an
  episode is rejected with an \<^verbatim>\<open>AbortError\<close> (the attempts before it having failed with
  retryable errors, each followed by its backoff timer), processImage returns the source
  URL as if it were a result, with no delay and no further attempt after the abort, and
  handleSingleProcess records that URL as the Job's result and marks the Job Completed.
\<close>

theorem abort_recorded_as_result:
  assumes "currentImageIndex s < length (images s)" and "\<not> isProcessing s"
    and "k < maxRetries" and "\<forall>j < k. retryable (env j)" and "aborted (env k)"
  shows "status (images (handleSingleProcess env s) ! currentImageIndex s) = Completed \<and>
         processed (images (handleSingleProcess env s) ! currentImageIndex s)
           = Some (original (images s ! currentImageIndex s)) \<and>
         filter is_attempt_or_delay (new_calls s (handleSingleProcess env s))
           = concat (map (\<lambda>j. [Fetch (original (images s ! currentImageIndex s)) None,
                                SetTimeout (retryDelay * 2 ^ j)]) [0..<k]) @
             [Fetch (original (images s ! currentImageIndex s)) None]"
proof -
  let ?s1 = "setProgress ProgressReset 0 (s\<lparr>isProcessing := True\<rparr>)"
  let ?u = "original (images s ! currentImageIndex s)"
  have ep: "fst (processImage env ?u 0 ?s1) = Inr ?u"
    using abort_after_failures [of k 0 env ?u ?s1] assms(3,4,5) by simp
  have f: "failures env = k"
    using failures_until_abort [of k env] assms(3,4,5) by simp
  obtain X where X: "calls (snd (processImage env ?u 0 ?s1)) = calls ?s1 @ X"
    "filter is_attempt_or_delay X =
       concat (map (\<lambda>j. [Fetch ?u None, SetTimeout (retryDelay * 2 ^ j)]) [0..<failures env]) @
       (if failures env < maxRetries then [Fetch ?u None] else [])"
    using backoff_from [of 0 env ?u ?s1] by (auto simp: failures_def)
  have "filter is_attempt_or_delay (new_calls ?s1 (snd (processImage env ?u 0 ?s1))) =
      concat (map (\<lambda>j. [Fetch ?u None, SetTimeout (retryDelay * 2 ^ j)]) [0..<k]) @ [Fetch ?u None]"
    using X assms(3) by (simp add: new_calls_def f del: upt_Suc)
  then show ?thesis
    using ep
    by (simp add: handleSingleProcess_image [OF assms(1,2)]
        handleSingleProcess_calls [OF assms(1,2)] del: upt_Suc)
qed

theorem abort_recorded_as_result_witness:
  "status (images (handleSingleProcess aborted_on_retry sample_state) ! 0) = Completed \<and>
   processed (images (handleSingleProcess aborted_on_retry sample_state) ! 0) = Some (BlobUrl 1) \<and>
   filter is_attempt_or_delay
     (new_calls sample_state (handleSingleProcess aborted_on_retry sample_state))
     = [Fetch (BlobUrl 1) None, SetTimeout 1000, Fetch (BlobUrl 1) None]"
  using abort_recorded_as_result [of sample_state 1 aborted_on_retry]
  by (simp add: sample_state_def sample_job_def init_def aborted_on_retry_def maxRetries_def
      retryDelay_def)

text \<open>
  C1 as stated fails: on the cancellation path the Job does not revert to Pending and a
  result is recorded.
\<close>

theorem cancellation_counterexample:
  "status (images (handleSingleProcess aborting sample_state) ! 0) \<noteq> Pending \<and>
   processed (images (handleSingleProcess aborting sample_state) ! 0) \<noteq> None"
proof -
  have a: "currentImageIndex sample_state < length (images sample_state)"
    "\<not> isProcessing sample_state"
    by (simp_all add: sample_state_def init_def)
  have lt: "0 < maxRetries" by (simp add: maxRetries_def)
  have "aborted (aborting 0)" by (simp add: aborting_def)
  from processImage_aborted [of 0 aborting, OF lt this] show ?thesis
    using handleSingleProcess_image [OF a, of aborting]
    by (simp add: sample_state_def init_def)
qed

lemma create_previews_frame:
  "length (fst (create_previews fs s)) = length fs \<and>
   images (snd (create_previews fs s)) = images s \<and>
   calls (snd (create_previews fs s)) = calls s"
proof (induction fs arbitrary: s)
  case Nil
  then show ?case by simp
next
  case (Cons f fs)
  obtain ps s2 where r: "create_previews fs (s\<lparr>nextBlob := Suc (nextBlob s)\<rparr>) = (ps, s2)"
    by (cases "create_previews fs (s\<lparr>nextBlob := Suc (nextBlob s)\<rparr>)")
  with Cons [of "s\<lparr>nextBlob := Suc (nextBlob s)\<rparr>"] show ?case
    by (simp add: createObjectURL_def)
qed

lemma compress_all_frame:
  "images (snd (compress_all fps j cenv s)) = images s \<and>
   (\<exists>X. calls (snd (compress_all fps j cenv s)) = calls s @ X \<and> filter is_toast X = [])"
proof (induction fps j cenv s rule: compress_all.induct)
  case (1 j cenv s)
  then show ?case by simp
next
  case (2 f p fps j cenv s)
  show ?case
  proof (cases "cenv j")
    case None
    with 2(1) [OF None, of "fst (createObjectURL s)" "snd (createObjectURL s)"]
    show ?thesis
      by (auto simp: createObjectURL_def split: prod.splits)
  next
    case (Some e)
    from 2(2) [OF Some] obtain X where
      "images (snd (compress_all fps (Suc j) cenv (cleanup (Some p) s))) = images s"
      "calls (snd (compress_all fps (Suc j) cenv (cleanup (Some p) s))) =
         calls s @ RevokeObjectURL p # X" "filter is_toast X = []"
      by (auto simp: cleanup_def emit_def)
    then show ?thesis
      using Some by (auto split: prod.splits)
  qed
qed

lemma compress_all_results:
  "case promise_all (fst (compress_all fps j cenv s)) of
     Some new \<Rightarrow> list_all (\<lambda>k. cenv k = None) [j..<j + length fps] \<and>
       map name new = map (file_name \<circ> fst) fps \<and>
       list_all (\<lambda>img. status img = Pending \<and> processed img = None \<and> retries img = 0) new
   | None \<Rightarrow> \<not> list_all (\<lambda>k. cenv k = None) [j..<j + length fps]"
proof (induction fps j cenv s rule: compress_all.induct)
  case (1 j cenv s)
  then show ?case by simp
next
  case (2 f p fps j cenv s)
  have upt: "[j..<j + Suc (length fps)] = j # [Suc j..<Suc j + length fps]"
    by (simp add: upt_conv_Cons del: upt_Suc)
  show ?case
  proof (cases "cenv j")
    case None
    with 2(1) [OF None, of "fst (createObjectURL s)" "snd (createObjectURL s)"]
    show ?thesis
      unfolding length_Cons upt
      by (auto simp: createObjectURL_def split: prod.splits option.splits)
  next
    case (Some e)
    then show ?thesis
      unfolding length_Cons upt by (auto split: prod.splits)
  qed
qed

text \<open>What handleImageUpload leaves behind: the Jobs it appends and the report it makes.\<close>

lemma handleImageUpload_summary:
  "take (length (images s)) (images (handleImageUpload files cenv s)) = images s \<and>
   map name (drop (length (images s)) (images (handleImageUpload files cenv s))) =
     (if list_all (\<lambda>j. cenv j = None) [0..<length (filter valid_file files)]
      then map file_name (filter valid_file files) else []) \<and>
   list_all (\<lambda>img. status img = Pending \<and> processed img = None \<and> retries img = 0)
     (drop (length (images s)) (images (handleImageUpload files cenv s))) \<and>
   filter is_toast (new_calls s (handleImageUpload files cenv s)) =
     [ToastCall (if filter valid_file files = [] then InvalidFiles
                 else if list_all (\<lambda>j. cenv j = None) [0..<length (filter valid_file files)]
                 then UploadSuccessful (length (filter valid_file files))
                 else UploadFailed)]"
proof (cases "filter valid_file files = []")
  case True
  then show ?thesis
    by (simp add: handleImageUpload_def emit_def new_calls_def)
next
  case False
  let ?v = "filter valid_file files"
  obtain ps s1 where cp: "create_previews ?v s = (ps, s1)" by (cases "create_previews ?v s")
  obtain rs s2 where ca: "compress_all (zip ?v ps) 0 cenv s1 = (rs, s2)"
    by (cases "compress_all (zip ?v ps) 0 cenv s1")
  have f1: "length ps = length ?v" "images s1 = images s" "calls s1 = calls s"
    using create_previews_frame [of ?v s] cp by simp_all
  obtain X where f2: "images s2 = images s" "calls s2 = calls s @ X" "filter is_toast X = []"
    using compress_all_frame [of "zip ?v ps" 0 cenv s1] ca f1 by auto
  have len: "length (zip ?v ps) = length ?v" using f1 by simp
  have "map fst (zip ?v ps) = ?v"
    using f1(1) by simp
  then have "map file_name (map fst (zip ?v ps)) = map file_name ?v"
    by (rule arg_cong)
  then have fsts: "map (file_name \<circ> fst) (zip ?v ps) = map file_name ?v"
    by (simp only: map_map)
  have res: "case promise_all rs of
     Some new \<Rightarrow> list_all (\<lambda>k. cenv k = None) [0..<length ?v] \<and>
       map name new = map file_name ?v \<and>
       list_all (\<lambda>img. status img = Pending \<and> processed img = None \<and> retries img = 0) new
   | None \<Rightarrow> \<not> list_all (\<lambda>k. cenv k = None) [0..<length ?v]"
    using compress_all_results [where fps = "zip ?v ps" and j = 0 and cenv = cenv and s = s1]
    by (simp only: ca fst_conv len fsts add_0)
  have toasts: "\<And>c. filter is_toast (new_calls s (emit c (s2\<lparr>images := images s2 @ []\<rparr>))) =
      filter is_toast [c]"
    using f2 by (simp add: emit_def new_calls_def)
  show ?thesis
  proof (cases "promise_all rs")
    case None
    with res have bad: "\<not> list_all (\<lambda>k. cenv k = None) [0..<length ?v]" by simp
    have eq: "handleImageUpload files cenv s = emit (ToastCall UploadFailed) (emit ConsoleError s2)"
      using False cp ca None by (simp add: handleImageUpload_def)
    have "images (handleImageUpload files cenv s) = images s"
      "new_calls s (handleImageUpload files cenv s) = X @ [ConsoleError, ToastCall UploadFailed]"
      unfolding eq using f2 by (simp_all add: emit_def new_calls_def)
    then show ?thesis
      using False bad f2(3) by simp
  next
    case (Some new)
    with res have ok: "list_all (\<lambda>k. cenv k = None) [0..<length ?v]"
      and nm: "map name new = map file_name ?v"
      and st: "list_all (\<lambda>img. status img = Pending \<and> processed img = None \<and> retries img = 0) new"
      by simp_all
    have ln: "length new = length ?v"
      using arg_cong [OF nm, of length] by simp
    have eq: "handleImageUpload files cenv s =
        emit (ToastCall (UploadSuccessful (length new))) (s2\<lparr>images := images s2 @ new\<rparr>)"
      using False cp ca Some by (simp add: handleImageUpload_def)
    have "images (handleImageUpload files cenv s) = images s @ new"
      "new_calls s (handleImageUpload files cenv s) = X @ [ToastCall (UploadSuccessful (length new))]"
      unfolding eq using f2 by (simp_all add: emit_def new_calls_def)
    then show ?thesis
      using False ok nm st ln f2(3) by simp
  qed
qed

text \<open>
  C6, as the code has it. Inputs that fail validation (type not accepted, or larger than
  \<open>maxSize\<close>) are dropped without a report and do not stop the others. When every valid
  input is compressed, one Pending Job per valid input is appended, in input order, and
  the report names only their number. When the compression of any valid input is
  rejected, no Job is added and the report is "Upload failed". With no valid input the
  report is "Invalid files". The handler returns in every case.
\<close>

theorem intake_summary:
  "take (length (images s)) (images (handleImageUpload files cenv s)) = images s \<and>
   map name (drop (length (images s)) (images (handleImageUpload files cenv s))) =
     (if list_all (\<lambda>j. cenv j = None) [0..<length (filter valid_file files)]
      then map file_name (filter valid_file files) else []) \<and>
   list_all (\<lambda>img. status img = Pending \<and> processed img = None \<and> retries img = 0)
     (drop (length (images s)) (images (handleImageUpload files cenv s))) \<and>
   filter is_toast (new_calls s (handleImageUpload files cenv s)) =
     [ToastCall (if filter valid_file files = [] then InvalidFiles
                 else if list_all (\<lambda>j. cenv j = None) [0..<length (filter valid_file files)]
                 then UploadSuccessful (length (filter valid_file files))
                 else UploadFailed)]"
  by (rule handleImageUpload_summary)

text \<open>
  C6 as stated fails: one rejected compression discards the two inputs that succeeded,
  and the report for three valid inputs and an oversized one says nothing of a rejection.
\<close>

theorem intake_counterexample:
  "images (handleImageUpload three_valid second_fails init) = [] \<and>
   filter is_toast (calls (handleImageUpload three_valid second_fails init))
     = [ToastCall UploadFailed] \<and>
   filter is_toast (calls (handleImageUpload (three_valid @ [oversized]) (\<lambda>j. None) init))
     = [ToastCall (UploadSuccessful 3)]"
  by (simp add: handleImageUpload_def three_valid_def oversized_def second_fails_def jpeg_def
      valid_file_def upload_types_def maxSize_def init_def createObjectURL_def emit_def
      cleanup_def)

theorem intake_summary_witness:
  "map name (images (handleImageUpload (three_valid @ [oversized]) (\<lambda>j. None) init))
     = [''a.jpg'', ''b.jpg'', ''c.jpg'']"
  using intake_summary [of init "three_valid @ [oversized]" "\<lambda>j. None"]
  by (simp add: three_valid_def oversized_def jpeg_def valid_file_def upload_types_def
      maxSize_def init_def)

section \<open>Properties of the batch runner\<close>

lemma findIndex_Some:
  "findIndex P xs = Some j \<Longrightarrow> j < length xs \<and> P (xs ! j)"
  by (induction xs arbitrary: j) (auto split: if_splits option.splits)

lemma findIndex_None: "findIndex P xs = None \<Longrightarrow> x \<in> set xs \<Longrightarrow> \<not> P x"
  by (induction xs) (auto split: if_splits option.splits)

lemma find_update:
  assumes "distinct (map f xs)" "j < length xs" "f y = f (xs ! j)"
  shows "find (\<lambda>x. f x = u) (xs[j := y]) =
         (if u = f (xs ! j) then Some y else find (\<lambda>x. f x = u) xs)"
  using assms
proof (induction xs arbitrary: j)
  case Nil
  then show ?case by simp
next
  case (Cons a xs)
  show ?case
  proof (cases j)
    case 0
    then show ?thesis using Cons.prems by auto
  next
    case (Suc i)
    with Cons.prems have "xs ! i \<in> set xs" by simp
    then have "f (xs ! i) \<in> f ` set xs" by (rule imageI)
    with Cons.prems(1) have "f (xs ! i) \<noteq> f a" by auto
    with Cons Suc show ?thesis by auto
  qed
qed

lemma status_of_map_at:
  assumes "distinct (map original (images s))" "j < length (images s)"
    "original (g (images s ! j)) = original (images s ! j)"
    "images s' = map_at j g (images s)"
  shows "status_of s' = (status_of s)(original (images s ! j) \<mapsto> status (g (images s ! j)))"
  using assms find_update [of original "images s" j "g (images s ! j)"]
  by (auto simp: status_of_def map_at_conv fun_eq_iff)

lemma status_of_cong: "images s' = images s \<Longrightarrow> status_of s' = status_of s"
  by (simp add: status_of_def fun_eq_iff)

lemma map_original_map_at:
  "(\<And>x. original (g x) = original x) \<Longrightarrow> map original (map_at j g xs) = map original xs"
  by (simp add: map_at_conv map_update) (metis list_update_id length_map nth_map map_update)

lemma status_of_nth:
  assumes "distinct (map original (images s))" "j < length (images s)"
  shows "status_of s (original (images s ! j)) = Some (status (images s ! j))"
proof -
  have "find (\<lambda>x. original x = original (images s ! j)) (images s) = Some (images s ! j)"
    using assms
    by (subst find_Some_iff) (auto simp: distinct_conv_nth intro!: exI [of _ j])
  then show ?thesis by (simp add: status_of_def)
qed

lemma status_of_SomeD:
  "status_of s u = Some st \<Longrightarrow> \<exists>img \<in> set (images s). original img = u \<and> status img = st"
  by (auto simp: status_of_def find_Some_iff)


lemma ginvD:
  assumes "ginv C0 cnt batch (s, b)"
  shows "map original (images s) = map original (snapshot b)"
    and "distinct (map original (snapshot b))"
    and "distinct (map original (pending b))"
    and "original ` set (pending b) \<subseteq> original ` set (snapshot b)"
    and "map t_img (tasks b) @ batch = wave b"
    and "\<And>k. k < length (tasks b) \<Longrightarrow> t_index (tasks b ! k) < length (images s)"
    and "\<And>k. k < length (tasks b) \<Longrightarrow>
           original (images s ! t_index (tasks b ! k)) = original (t_img (tasks b ! k))"
    and "\<And>k. k < length (tasks b) \<Longrightarrow> settled (tasks b ! k) \<Longrightarrow>
           \<exists>st. status_of s (original (t_img (tasks b ! k))) = Some st \<and> terminal st"
    and "\<And>k. k < length (tasks b) \<Longrightarrow> \<not> settled (tasks b ! k) \<Longrightarrow>
           status_of s (original (t_img (tasks b ! k))) = Some Processing"
    and "\<And>u. status_of s u = Some Processing \<Longrightarrow> u \<in> original ` set (wave b)"
    and "\<And>q. q \<in> set (take (offset b) (pending b)) \<Longrightarrow>
           \<exists>st. status_of s (original q) = Some st \<and> terminal st"
    and "\<exists>Y. calls s = C0 @ Y \<and>
          filter is_batch_progress Y =
            map (\<lambda>j. BatchProgress j (length (pending b))) [1..<Suc (processedCount b)]"
    and "if running b then isBulkProcessing s
         else progress s = 0 \<and> \<not> isBulkProcessing s \<and> tasks b = []"
    and "\<And>q. cnt \<Longrightarrow> q \<in> set (drop (offset b + batchSize) (pending b)) \<union> set batch \<Longrightarrow>
           status_of s (original q) \<noteq> Some Completed"
    and "cnt \<Longrightarrow> processedCount b =
          card {u \<in> original ` set (pending b). status_of s u = Some Completed}"
    and "filter (\<lambda>img. processed img = None) (snapshot b) = pending b"
    and "\<And>j. cnt \<Longrightarrow> j < length (images s) \<Longrightarrow> status (images s ! j) \<noteq> Completed \<Longrightarrow>
           processed (images s ! j) = processed (snapshot b ! j)"
    and "\<And>j. cnt \<Longrightarrow> j < length (images s) \<Longrightarrow> jok (images s ! j)"
  using assms unfolding ginv_def by (simp_all del: upt_Suc)

lemma ginvI:
  assumes "map original (images s) = map original (snapshot b)"
    and "distinct (map original (snapshot b))"
    and "distinct (map original (pending b))"
    and "original ` set (pending b) \<subseteq> original ` set (snapshot b)"
    and "map t_img (tasks b) @ batch = wave b"
    and "\<And>k. k < length (tasks b) \<Longrightarrow> t_index (tasks b ! k) < length (images s)"
    and "\<And>k. k < length (tasks b) \<Longrightarrow>
           original (images s ! t_index (tasks b ! k)) = original (t_img (tasks b ! k))"
    and "\<And>k. k < length (tasks b) \<Longrightarrow> settled (tasks b ! k) \<Longrightarrow>
           \<exists>st. status_of s (original (t_img (tasks b ! k))) = Some st \<and> terminal st"
    and "\<And>k. k < length (tasks b) \<Longrightarrow> \<not> settled (tasks b ! k) \<Longrightarrow>
           status_of s (original (t_img (tasks b ! k))) = Some Processing"
    and "\<And>u. status_of s u = Some Processing \<Longrightarrow> u \<in> original ` set (wave b)"
    and "\<And>q. q \<in> set (take (offset b) (pending b)) \<Longrightarrow>
           \<exists>st. status_of s (original q) = Some st \<and> terminal st"
    and "\<exists>Y. calls s = C0 @ Y \<and>
          filter is_batch_progress Y =
            map (\<lambda>j. BatchProgress j (length (pending b))) [1..<Suc (processedCount b)]"
    and "if running b then isBulkProcessing s
         else progress s = 0 \<and> \<not> isBulkProcessing s \<and> tasks b = []"
    and "\<And>q. cnt \<Longrightarrow> q \<in> set (drop (offset b + batchSize) (pending b)) \<union> set batch \<Longrightarrow>
           status_of s (original q) \<noteq> Some Completed"
    and "cnt \<Longrightarrow> processedCount b =
          card {u \<in> original ` set (pending b). status_of s u = Some Completed}"
    and "filter (\<lambda>img. processed img = None) (snapshot b) = pending b"
    and "\<And>j. cnt \<Longrightarrow> j < length (images s) \<Longrightarrow> status (images s ! j) \<noteq> Completed \<Longrightarrow>
           processed (images s ! j) = processed (snapshot b ! j)"
    and "\<And>j. cnt \<Longrightarrow> j < length (images s) \<Longrightarrow> jok (images s ! j)"
  shows "ginv C0 cnt batch (s, b)"
  unfolding ginv_def using assms by (simp del: upt_Suc)

lemma wave_facts:
  assumes "distinct (map original (pending b))"
  shows "distinct (map original (wave b))"
    and "set (wave b) \<subseteq> set (pending b)"
    and "\<And>a q. a \<in> set (wave b) \<Longrightarrow> q \<in> set (drop (offset b + batchSize) (pending b))
           \<Longrightarrow> original a \<noteq> original q"
    and "\<And>a q. a \<in> set (wave b) \<Longrightarrow> q \<in> set (take (offset b) (pending b))
           \<Longrightarrow> original a \<noteq> original q"
proof -
  let ?P = "pending b" and ?Q = "drop (offset b) (pending b)"
  have dQ: "distinct (map original ?Q)"
    using assms by (simp add: drop_map [symmetric])
  show "distinct (map original (wave b))"
    using dQ by (simp add: wave_def take_map [symmetric])
  show "set (wave b) \<subseteq> set (pending b)"
    unfolding wave_def by (meson set_take_subset set_drop_subset subset_trans)
  have "distinct (map original (take batchSize ?Q @ drop batchSize ?Q))"
    using dQ by (simp only: append_take_drop_id)
  then have disj1: "original ` set (take batchSize ?Q) \<inter> original ` set (drop batchSize ?Q) = {}"
    by (simp only: map_append distinct_append set_map)
  have "distinct (map original (take (offset b) ?P @ ?Q))"
    using assms by (simp only: append_take_drop_id)
  then have disj2: "original ` set (take (offset b) ?P) \<inter> original ` set ?Q = {}"
    by (simp only: map_append distinct_append set_map)
  show "\<And>a q. a \<in> set (wave b) \<Longrightarrow> q \<in> set (drop (offset b + batchSize) (pending b))
           \<Longrightarrow> original a \<noteq> original q"
  proof
    fix a q assume a: "a \<in> set (wave b)"
      and q: "q \<in> set (drop (offset b + batchSize) (pending b))"
      and eq: "original a = original q"
    from a have 1: "original a \<in> original ` set (take batchSize ?Q)"
      unfolding wave_def by (rule imageI)
    from q have "q \<in> set (drop batchSize ?Q)" by (simp add: add.commute)
    then have "original q \<in> original ` set (drop batchSize ?Q)" by (rule imageI)
    with eq have 2: "original a \<in> original ` set (drop batchSize ?Q)" by simp
    from 1 2 disj1 show False by blast
  qed
  show "\<And>a q. a \<in> set (wave b) \<Longrightarrow> q \<in> set (take (offset b) (pending b))
           \<Longrightarrow> original a \<noteq> original q"
  proof
    fix a q assume a: "a \<in> set (wave b)"
      and q: "q \<in> set (take (offset b) (pending b))"
      and eq: "original a = original q"
    have "set (wave b) \<subseteq> set ?Q"
      unfolding wave_def by (rule set_take_subset)
    with a have "a \<in> set ?Q" by blast
    then have 1: "original a \<in> original ` set ?Q" by (rule imageI)
    from q have "original q \<in> original ` set (take (offset b) ?P)" by (rule imageI)
    with eq have 2: "original a \<in> original ` set (take (offset b) ?P)" by simp
    from 1 2 disj2 show False by blast
  qed
qed

lemma task_keys_distinct:
  assumes "ginv C0 cnt batch (s, b)" "i < length (tasks b)" "k < length (tasks b)" "i \<noteq> k"
  shows "original (t_img (tasks b ! i)) \<noteq> original (t_img (tasks b ! k))"
proof -
  have "distinct (map original (map t_img (tasks b) @ batch))"
    using wave_facts(1) [OF ginvD(3) [OF assms(1)]] ginvD(5) [OF assms(1)] by simp
  then have "distinct (map (original \<circ> t_img) (tasks b))" by simp
  then show ?thesis
    using assms(2,3,4) by (auto simp: distinct_conv_nth)
qed

lemma task_key_in_wave:
  assumes "ginv C0 cnt batch (s, b)" "k < length (tasks b)"
  shows "t_img (tasks b ! k) \<in> set (wave b)"
proof -
  have "t_img (tasks b ! k) \<in> set (map t_img (tasks b))"
    using assms(2) by simp
  then show ?thesis
    using ginvD(5) [OF assms(1)] by (metis Un_iff set_append)
qed

lemma settle_inv:
  assumes inv: "ginv C0 cnt [] (s, b)"
    and k: "k < length (tasks b)" and uns: "\<not> settled (tasks b ! k)"
    and t': "t_index t' = t_index (tasks b ! k)" "t_img t' = t_img (tasks b ! k)" "settled t'"
    and g: "\<And>x. original (g x) = original x" "\<And>x. status (g x) = st'" "terminal st'"
      "\<And>x. st' = Completed \<Longrightarrow> processed (g x) \<noteq> None"
      "\<And>x. st' \<noteq> Completed \<Longrightarrow> processed (g x) = processed x"
    and fl: "running b" "isBulkProcessing s' = isBulkProcessing s"
    and im: "images s' = map_at (t_index (tasks b ! k)) g (images s)"
    and b': "tasks b' = (tasks b)[k := t']" "pending b' = pending b" "snapshot b' = snapshot b"
      "offset b' = offset b" "running b'"
    and pc: "processedCount b' = (if st' = Completed then Suc (processedCount b) else processedCount b)"
    and cl: "\<exists>Z. calls s' = calls s @ Z \<and> filter is_batch_progress Z =
        (if st' = Completed then [BatchProgress (Suc (processedCount b)) (length (pending b))] else [])"
  shows "ginv C0 cnt [] (s', b')"
proof -
  note D = ginvD [OF inv]
  let ?t = "tasks b ! k"
  let ?K = "original (t_img ?t)"
  have ds: "distinct (map original (images s))" using D(1,2) by simp
  have jl: "t_index ?t < length (images s)" by (rule D(6) [OF k])
  have oK: "original (images s ! t_index ?t) = ?K" by (rule D(7) [OF k])
  have M': "status_of s' = (status_of s)(?K \<mapsto> st')"
    using status_of_map_at [OF ds jl _ im] g(1,2) oK by simp
  have MK: "status_of s ?K = Some Processing" by (rule D(9) [OF k uns])
  have w: "wave b' = wave b" by (simp add: wave_def b')
  have Kw: "t_img ?t \<in> set (wave b)" by (rule task_key_in_wave [OF inv k])
  have Kp: "?K \<in> original ` set (pending b)"
    using Kw wave_facts(2) [OF D(3)] by blast
  have mo: "map original (images s') = map original (images s)"
    unfolding im by (rule map_original_map_at) (rule g(1))
  have nth': "\<And>i. i < length (tasks b) \<Longrightarrow> tasks b' ! i = (if i = k then t' else tasks b ! i)"
    by (simp add: b' nth_list_update)
  have key': "\<And>i. i < length (tasks b) \<Longrightarrow> t_img (tasks b' ! i) = t_img (tasks b ! i)"
    "\<And>i. i < length (tasks b) \<Longrightarrow> t_index (tasks b' ! i) = t_index (tasks b ! i)"
    using t' by (simp_all add: nth')
  have oth: "\<And>i. i < length (tasks b) \<Longrightarrow> i \<noteq> k \<Longrightarrow>
      status_of s' (original (t_img (tasks b ! i))) = status_of s (original (t_img (tasks b ! i)))"
    using task_keys_distinct [OF inv _ k] by (simp add: M')
  show ?thesis
  proof (rule ginvI)
    show "map original (images s') = map original (snapshot b')"
      using mo D(1) b' by simp
    show "distinct (map original (snapshot b'))" using D(2) b' by simp
    show "distinct (map original (pending b'))" using D(3) b' by simp
    show "original ` set (pending b') \<subseteq> original ` set (snapshot b')" using D(4) b' by simp
    have "map t_img (tasks b') = map t_img (tasks b)"
      using k t'(2) by (simp add: b' map_update list_update_same_conv)
    then show "map t_img (tasks b') @ [] = wave b'" using D(5) w by simp
  next
    fix i assume i: "i < length (tasks b')"
    then have i': "i < length (tasks b)" by (simp add: b')
    show "t_index (tasks b' ! i) < length (images s')"
      using D(6) [OF i'] key'(2) [OF i'] by (simp add: im)
    have "original (images s' ! t_index (tasks b ! i)) = original (images s ! t_index (tasks b ! i))"
      using D(6) [OF i'] arg_cong [OF mo, of "\<lambda>xs. xs ! t_index (tasks b ! i)"]
      by (simp add: im)
    then show "original (images s' ! t_index (tasks b' ! i)) = original (t_img (tasks b' ! i))"
      using D(7) [OF i'] key' [OF i'] by simp
    show "\<exists>st. status_of s' (original (t_img (tasks b' ! i))) = Some st \<and> terminal st"
      if "settled (tasks b' ! i)"
    proof (cases "i = k")
      case True
      then show ?thesis using g(3) t'(2) i' by (simp add: nth' M')
    next
      case False
      with that i' have "settled (tasks b ! i)" by (simp add: nth')
      from D(8) [OF i' this] show ?thesis
        using oth [OF i' False] key'(1) [OF i'] by simp
    qed
    show "status_of s' (original (t_img (tasks b' ! i))) = Some Processing"
      if "\<not> settled (tasks b' ! i)"
    proof (cases "i = k")
      case True
      then show ?thesis using that t'(3) i' by (simp add: nth')
    next
      case False
      with that i' have "\<not> settled (tasks b ! i)" by (simp add: nth')
      from D(9) [OF i' this] show ?thesis
        using oth [OF i' False] key'(1) [OF i'] by simp
    qed
  next
    fix u assume "status_of s' u = Some Processing"
    then have "status_of s u = Some Processing"
      using g(3) by (auto simp: M' terminal_def split: if_splits)
    then show "u \<in> original ` set (wave b')" using D(10) w by simp
  next
    fix q assume "q \<in> set (take (offset b') (pending b'))"
    then have q: "q \<in> set (take (offset b) (pending b))" by (simp add: b')
    from D(11) [OF q] show "\<exists>st. status_of s' (original q) = Some st \<and> terminal st"
      using g(3) by (auto simp: M')
  next
    from D(12) obtain Y where Y: "calls s = C0 @ Y"
      "filter is_batch_progress Y =
         map (\<lambda>j. BatchProgress j (length (pending b))) [1..<Suc (processedCount b)]"
      by blast
    from cl obtain Z where Z: "calls s' = calls s @ Z" "filter is_batch_progress Z =
        (if st' = Completed then [BatchProgress (Suc (processedCount b)) (length (pending b))] else [])"
      by blast
    have "calls s' = C0 @ (Y @ Z)" using Y(1) Z(1) by simp
    moreover have "filter is_batch_progress (Y @ Z) =
        map (\<lambda>j. BatchProgress j (length (pending b'))) [1..<Suc (processedCount b')]"
      using Y(2) Z(2) by (simp add: pc b')
    ultimately show "\<exists>Y. calls s' = C0 @ Y \<and> filter is_batch_progress Y =
        map (\<lambda>j. BatchProgress j (length (pending b'))) [1..<Suc (processedCount b')]"
      by blast
  next
    show "if running b' then isBulkProcessing s'
        else progress s' = 0 \<and> \<not> isBulkProcessing s' \<and> tasks b' = []"
      using b'(5) D(13) fl by simp
    show "filter (\<lambda>img. processed img = None) (snapshot b') = pending b'"
      using D(16) b' by simp
  next
    fix j assume c: cnt and j: "j < length (images s')"
    then have j': "j < length (images s)" by (simp add: im)
    have nj: "images s' ! j = (if j = t_index ?t then g (images s ! j) else images s ! j)"
      using j' by (simp add: im nth_map_at)
    have sp: "status (images s ! t_index ?t) = Processing"
      using status_of_nth [OF ds jl] oK MK by simp
    show "jok (images s' ! j)"
    proof (cases "j = t_index ?t")
      case True
      with nj have e: "images s' ! j = g (images s ! j)" by simp
      show ?thesis
        unfolding e using g(2) [of "images s ! j"] g(3) g(4) [of "images s ! j"]
        by (auto simp: jok_def terminal_def)
    next
      case False
      then show ?thesis using D(18) [OF c j'] by (simp add: nj)
    qed
    show "processed (images s' ! j) = processed (snapshot b' ! j)"
      if "status (images s' ! j) \<noteq> Completed"
    proof (cases "j = t_index ?t")
      case True
      with nj have e: "images s' ! j = g (images s ! j)" by simp
      with that have "st' \<noteq> Completed" using g(2) by simp
      from g(5) [OF this, of "images s ! j"] show ?thesis
        unfolding e using True D(17) [OF c j'] sp by (simp add: b')
    next
      case False
      then show ?thesis using that D(17) [OF c j'] by (simp add: nj b')
    qed
  next
    fix q assume c: cnt and "q \<in> set (drop (offset b' + batchSize) (pending b')) \<union> set []"
    then have q: "q \<in> set (drop (offset b + batchSize) (pending b))" by (simp add: b')
    have "original q \<noteq> ?K"
      using wave_facts(3) [OF D(3) Kw q] by simp
    then show "status_of s' (original q) \<noteq> Some Completed"
      using D(14) [OF c, of q] q by (simp add: M')
  next
    assume c: cnt
    let ?A = "original ` set (pending b)"
    let ?S = "{u \<in> ?A. status_of s u = Some Completed}"
    have fin: "finite ?S" by simp
    have nin: "?K \<notin> ?S" using MK by simp
    show "processedCount b' = card {u \<in> original ` set (pending b'). status_of s' u = Some Completed}"
    proof (cases "st' = Completed")
      case True
      have "{u \<in> ?A. status_of s' u = Some Completed} = insert ?K ?S"
        using Kp True by (auto simp: M')
      then show ?thesis
        using True D(15) [OF c] fin nin by (simp add: pc b')
    next
      case False
      have "{u \<in> ?A. status_of s' u = Some Completed} = ?S"
        using False MK by (auto simp: M')
      then show ?thesis
        using False D(15) [OF c] by (simp add: pc b')
    qed
  qed
qed

lemma frame_inv:
  assumes inv: "ginv C0 cnt batch (s, b)"
    and im: "images s' = images s"
    and cl: "\<exists>Z. calls s' = calls s @ Z \<and> filter is_batch_progress Z = []"
    and rn: "if running b' then isBulkProcessing s'
        else progress s' = 0 \<and> \<not> isBulkProcessing s' \<and> tasks b' = []"
    and b': "pending b' = pending b" "snapshot b' = snapshot b" "offset b' = offset b"
      "processedCount b' = processedCount b" "length (tasks b') = length (tasks b)"
    and ts: "\<And>i. i < length (tasks b) \<Longrightarrow>
        t_index (tasks b' ! i) = t_index (tasks b ! i) \<and>
        t_img (tasks b' ! i) = t_img (tasks b ! i) \<and>
        settled (tasks b' ! i) = settled (tasks b ! i)"
  shows "ginv C0 cnt batch (s', b')"
proof -
  note D = ginvD [OF inv]
  have M: "status_of s' = status_of s" by (rule status_of_cong [OF im])
  have w: "wave b' = wave b" by (simp add: wave_def b')
  have "map t_img (tasks b') = map t_img (tasks b)"
    using ts b'(5) by (auto intro: nth_equalityI)
  note tm = this
  show ?thesis
  proof (rule ginvI)
    show "map original (images s') = map original (snapshot b')" using D(1) im b' by simp
    show "distinct (map original (snapshot b'))" using D(2) b' by simp
    show "distinct (map original (pending b'))" using D(3) b' by simp
    show "original ` set (pending b') \<subseteq> original ` set (snapshot b')" using D(4) b' by simp
    show "map t_img (tasks b') @ batch = wave b'" using D(5) tm w by simp
    show "\<And>u. status_of s' u = Some Processing \<Longrightarrow> u \<in> original ` set (wave b')"
      using D(10) M w by simp
    show "\<And>q. q \<in> set (take (offset b') (pending b')) \<Longrightarrow>
        \<exists>st. status_of s' (original q) = Some st \<and> terminal st"
      using D(11) M b' by simp
    show "if running b' then isBulkProcessing s'
        else progress s' = 0 \<and> \<not> isBulkProcessing s' \<and> tasks b' = []"
      by (rule rn)
    show "filter (\<lambda>img. processed img = None) (snapshot b') = pending b'"
      using D(16) b' by simp
    show "\<And>j. cnt \<Longrightarrow> j < length (images s') \<Longrightarrow> status (images s' ! j) \<noteq> Completed \<Longrightarrow>
        processed (images s' ! j) = processed (snapshot b' ! j)"
      using D(17) im b' by simp
    show "\<And>j. cnt \<Longrightarrow> j < length (images s') \<Longrightarrow> jok (images s' ! j)"
      using D(18) im by simp
    show "\<And>q. cnt \<Longrightarrow> q \<in> set (drop (offset b' + batchSize) (pending b')) \<union> set batch \<Longrightarrow>
        status_of s' (original q) \<noteq> Some Completed"
      using D(14) M b' by simp
    show "cnt \<Longrightarrow> processedCount b' =
        card {u \<in> original ` set (pending b'). status_of s' u = Some Completed}"
      using D(15) M b' by simp
  next
    from D(12) obtain Y where Y: "calls s = C0 @ Y"
      "filter is_batch_progress Y =
         map (\<lambda>j. BatchProgress j (length (pending b))) [1..<Suc (processedCount b)]"
      by blast
    from cl obtain Z where Z: "calls s' = calls s @ Z" "filter is_batch_progress Z = []"
      by blast
    have "calls s' = C0 @ (Y @ Z)" using Y(1) Z(1) by simp
    moreover have "filter is_batch_progress (Y @ Z) =
        map (\<lambda>j. BatchProgress j (length (pending b'))) [1..<Suc (processedCount b')]"
      using Y(2) Z(2) by (simp add: b' del: upt_Suc)
    ultimately show "\<exists>Y. calls s' = C0 @ Y \<and> filter is_batch_progress Y =
        map (\<lambda>j. BatchProgress j (length (pending b'))) [1..<Suc (processedCount b')]"
      by blast
  next
    fix i assume "i < length (tasks b')"
    then have i: "i < length (tasks b)" by (simp add: b')
    show "t_index (tasks b' ! i) < length (images s')"
      using D(6) [OF i] ts [OF i] im by simp
    show "original (images s' ! t_index (tasks b' ! i)) = original (t_img (tasks b' ! i))"
      using D(7) [OF i] ts [OF i] im by simp
    show "settled (tasks b' ! i) \<Longrightarrow>
        \<exists>st. status_of s' (original (t_img (tasks b' ! i))) = Some st \<and> terminal st"
      using D(8) [OF i] ts [OF i] M by simp
    show "\<not> settled (tasks b' ! i) \<Longrightarrow>
        status_of s' (original (t_img (tasks b' ! i))) = Some Processing"
      using D(9) [OF i] ts [OF i] M by simp
  qed
qed

lemma start_inv:
  assumes inv: "ginv C0 cnt (img # batch) (s, b)"
    and idx: "index < length (images s)" "original (images s ! index) = original img"
    and im: "images s' = map_at index (\<lambda>x. x\<lparr>status := Processing\<rparr>) (images s)"
    and cl: "\<exists>Z. calls s' = calls s @ Z \<and> filter is_batch_progress Z = []"
    and b': "tasks b' = tasks b @ [t]" "pending b' = pending b" "snapshot b' = snapshot b"
      "offset b' = offset b" "processedCount b' = processedCount b" "running b'"
    and t: "t_index t = index" "t_img t = img" "\<not> settled t"
    and fl: "isBulkProcessing s'"
  shows "ginv C0 cnt batch (s', b')"
proof -
  note D = ginvD [OF inv]
  let ?K = "original img"
  have ds: "distinct (map original (images s))" using D(1,2) by simp
  have M': "status_of s' = (status_of s)(?K \<mapsto> Processing)"
    using status_of_map_at [OF ds idx(1) _ im] idx(2) by simp
  have w: "wave b' = wave b" by (simp add: wave_def b')
  have iw: "img \<in> set (wave b)" using D(5) by (metis in_set_conv_decomp)
  have mo: "map original (images s') = map original (images s)"
    unfolding im by (rule map_original_map_at) simp
  have dw: "distinct (map original (map t_img (tasks b) @ img # batch))"
    using wave_facts(1) [OF D(3)] D(5) by simp
  have "\<And>x. x \<in> set (tasks b) \<Longrightarrow> original (t_img x) \<noteq> ?K"
    using dw by (auto simp: image_iff)
  then have oth: "\<And>i. i < length (tasks b) \<Longrightarrow> original (t_img (tasks b ! i)) \<noteq> ?K"
    using nth_mem by blast
  have nb: "\<And>q. q \<in> set batch \<Longrightarrow> original q \<noteq> ?K"
    using dw by (auto simp: image_iff)
  show ?thesis
  proof (rule ginvI)
    show "map original (images s') = map original (snapshot b')" using mo D(1) b' by simp
    show "distinct (map original (snapshot b'))" using D(2) b' by simp
    show "distinct (map original (pending b'))" using D(3) b' by simp
    show "original ` set (pending b') \<subseteq> original ` set (snapshot b')" using D(4) b' by simp
    show "map t_img (tasks b') @ batch = wave b'" using D(5) w t(2) by (simp add: b')
    show "\<And>u. status_of s' u = Some Processing \<Longrightarrow> u \<in> original ` set (wave b')"
      using D(10) iw w by (auto simp: M' split: if_splits)
    show "if running b' then isBulkProcessing s'
        else progress s' = 0 \<and> \<not> isBulkProcessing s' \<and> tasks b' = []"
      using b'(6) fl by simp
    show "filter (\<lambda>img. processed img = None) (snapshot b') = pending b'"
      using D(16) b' by simp
  next
    fix j assume c: cnt and j: "j < length (images s')"
    then have j': "j < length (images s)" by (simp add: im)
    have nj: "images s' ! j =
        (if j = index then (images s ! j)\<lparr>status := Processing\<rparr> else images s ! j)"
      using j' by (simp add: im nth_map_at)
    have "status_of s ?K \<noteq> Some Completed" using D(14) [OF c, of img] by simp
    then have nc: "status (images s ! index) \<noteq> Completed"
      using status_of_nth [OF ds idx(1)] idx(2) by simp
    have pu: "processed (images s ! index) = processed (snapshot b ! index)"
      by (rule D(17) [OF c idx(1) nc])
    have ip: "img \<in> set (pending b)" using iw wave_facts(2) [OF D(3)] by blast
    then have "img \<in> set (filter (\<lambda>img. processed img = None) (snapshot b))"
      by (simp only: D(16))
    then have isn: "img \<in> set (snapshot b)" and pn: "processed img = None"
      by simp_all
    have ls: "index < length (snapshot b)"
      using idx(1) arg_cong [OF D(1), of length] by simp
    have "map original (images s) ! index = map original (snapshot b) ! index"
      using D(1) by simp
    then have "original (snapshot b ! index) = original img"
      using idx ls by simp
    moreover have "inj_on original (set (snapshot b))"
      using D(2) by (simp add: distinct_map)
    ultimately have "snapshot b ! index = img"
      using isn ls by (meson inj_onD nth_mem)
    with pu pn have p0: "processed (images s ! index) = None" by simp
    show "jok (images s' ! j)"
      using D(18) [OF c j'] p0 by (simp add: nj jok_def)
    show "processed (images s' ! j) = processed (snapshot b' ! j)"
      if "status (images s' ! j) \<noteq> Completed"
      using that D(17) [OF c j'] pu by (auto simp: nj b' split: if_splits)
  next
    fix q assume q: "q \<in> set (take (offset b') (pending b'))"
    then have q': "q \<in> set (take (offset b) (pending b))" by (simp add: b')
    have "original q \<noteq> ?K" using wave_facts(4) [OF D(3) iw q'] by simp
    then show "\<exists>st. status_of s' (original q) = Some st \<and> terminal st"
      using D(11) [OF q'] by (simp add: M')
  next
    from D(12) obtain Y where Y: "calls s = C0 @ Y"
      "filter is_batch_progress Y =
         map (\<lambda>j. BatchProgress j (length (pending b))) [1..<Suc (processedCount b)]"
      by blast
    from cl obtain Z where Z: "calls s' = calls s @ Z" "filter is_batch_progress Z = []"
      by blast
    have "calls s' = C0 @ (Y @ Z)" using Y(1) Z(1) by simp
    moreover have "filter is_batch_progress (Y @ Z) =
        map (\<lambda>j. BatchProgress j (length (pending b'))) [1..<Suc (processedCount b')]"
      using Y(2) Z(2) by (simp add: b' del: upt_Suc)
    ultimately show "\<exists>Y. calls s' = C0 @ Y \<and> filter is_batch_progress Y =
        map (\<lambda>j. BatchProgress j (length (pending b'))) [1..<Suc (processedCount b')]"
      by blast
  next
    fix q assume c: cnt and "q \<in> set (drop (offset b' + batchSize) (pending b')) \<union> set batch"
    then have q: "q \<in> set (drop (offset b + batchSize) (pending b)) \<union> set (img # batch)"
      by (auto simp: b')
    have "original q \<noteq> ?K"
      using \<open>q \<in> set (drop (offset b' + batchSize) (pending b')) \<union> set batch\<close>
        wave_facts(3) [OF D(3) iw, of q] nb [of q] by (auto simp: b')
    then show "status_of s' (original q) \<noteq> Some Completed"
      using D(14) [OF c q] by (simp add: M')
  next
    assume c: cnt
    have "status_of s ?K \<noteq> Some Completed" using D(14) [OF c, of img] by simp
    then have "{u \<in> original ` set (pending b). status_of s' u = Some Completed} =
        {u \<in> original ` set (pending b). status_of s u = Some Completed}"
      by (auto simp: M')
    then show "processedCount b' =
        card {u \<in> original ` set (pending b'). status_of s' u = Some Completed}"
      using D(15) [OF c] by (simp add: b')
  next
    fix i assume i: "i < length (tasks b')"
    have len: "length (images s') = length (images s)" by (simp add: im)
    have on: "\<And>j. j < length (images s) \<Longrightarrow> original (images s' ! j) = original (images s ! j)"
      by (simp add: im nth_map_at)
    have "t_index (tasks b' ! i) < length (images s')
        \<and> original (images s' ! t_index (tasks b' ! i)) = original (t_img (tasks b' ! i))
        \<and> (settled (tasks b' ! i) \<longrightarrow>
            (\<exists>st. status_of s' (original (t_img (tasks b' ! i))) = Some st \<and> terminal st))
        \<and> (\<not> settled (tasks b' ! i) \<longrightarrow>
            status_of s' (original (t_img (tasks b' ! i))) = Some Processing)"
    proof (cases "i < length (tasks b)")
      case True
      then have e: "tasks b' ! i = tasks b ! i" by (simp add: b' nth_append)
      show ?thesis
        unfolding e using D(6,7) [OF True] D(8,9) [OF True] oth [OF True] on len
        by (simp add: M')
    next
      case False
      with i have e: "tasks b' ! i = t" by (simp add: b' nth_append)
      show ?thesis
        unfolding e using t idx on len by (simp add: M')
    qed
    then show "t_index (tasks b' ! i) < length (images s')"
      "original (images s' ! t_index (tasks b' ! i)) = original (t_img (tasks b' ! i))"
      "settled (tasks b' ! i) \<Longrightarrow>
         \<exists>st. status_of s' (original (t_img (tasks b' ! i))) = Some st \<and> terminal st"
      "\<not> settled (tasks b' ! i) \<Longrightarrow>
         status_of s' (original (t_img (tasks b' ! i))) = Some Processing"
      by blast+
  qed
qed

lemma quiet_emit:
  "\<not> is_batch_progress c \<Longrightarrow> \<exists>Z. calls (emit c s) = calls s @ Z \<and> filter is_batch_progress Z = []"
  by (simp add: emit_def)

lemma quiet_trans:
  assumes "\<exists>Z. calls s1 = calls s @ Z \<and> filter is_batch_progress Z = []"
    and "\<exists>Z. calls s2 = calls s1 @ Z \<and> filter is_batch_progress Z = []"
  shows "\<exists>Z. calls s2 = calls s @ Z \<and> filter is_batch_progress Z = []"
proof -
  from assms obtain Z1 Z2 where "calls s1 = calls s @ Z1" "filter is_batch_progress Z1 = []"
    "calls s2 = calls s1 @ Z2" "filter is_batch_progress Z2 = []" by blast
  then have "calls s2 = calls s @ (Z1 @ Z2) \<and> filter is_batch_progress (Z1 @ Z2) = []" by simp
  then show ?thesis by blast
qed

lemma start_attempt_quiet:
  "images (start_attempt u s) = images s \<and>
   (\<exists>Z. calls (start_attempt u s) = calls s @ Z \<and> filter is_batch_progress Z = []) \<and>
   isBulkProcessing (start_attempt u s) = isBulkProcessing s"
  by (simp add: start_attempt_def emit_def new_controller_def abort_current_def
      split: option.splits)

lemma pi_enter_quiet:
  "images (snd (pi_enter u r s)) = images s \<and>
   (\<exists>Z. calls (snd (pi_enter u r s)) = calls s @ Z \<and> filter is_batch_progress Z = []) \<and>
   fst (pi_enter u r s) \<noteq> Suspended Settled \<and>
   isBulkProcessing (snd (pi_enter u r s)) = isBulkProcessing s"
  using start_attempt_quiet [of u s] by (simp add: pi_enter_def)

lemma pi_catch_quiet:
  "images (snd (pi_catch u r e s)) = images s \<and>
   (\<exists>Z. calls (snd (pi_catch u r e s)) = calls s @ Z \<and> filter is_batch_progress Z = []) \<and>
   fst (pi_catch u r e s) \<noteq> Suspended Settled \<and>
   isBulkProcessing (snd (pi_catch u r e s)) = isBulkProcessing s"
  by (simp add: pi_catch_def emit_def Let_def)

lemma pi_resume_quiet:
  "images (snd (pi_resume ev u r s)) = images s \<and>
   (\<exists>Z. calls (snd (pi_resume ev u r s)) = calls s @ Z \<and> filter is_batch_progress Z = []) \<and>
   fst (pi_resume ev u r s) \<noteq> Suspended Settled \<and>
   isBulkProcessing (snd (pi_resume ev u r s)) = isBulkProcessing s"
proof (cases ev)
  case (FetchDone k eo)
  then show ?thesis
    using pi_catch_quiet [of u r _ s]
    by (cases eo) (simp_all add: call_transform_def emit_def)
next
  case (Progress k p)
  then show ?thesis by (simp add: report_def setProgress_def emit_def)
next
  case (TransformDone k eo)
  then show ?thesis
    using pi_catch_quiet [of u r _ s]
    by (cases eo) (simp_all add: createObjectURL_def)
next
  case (TimerFired k)
  then show ?thesis using pi_enter_quiet [of u "Suc r" s] by simp
qed

lemma awaits_not_settled: "awaits ev \<noteq> Settled"
  by (cases ev) simp_all

lemma deliver_inv:
  assumes inv: "ginv C0 cnt [] (s, b)" and run: "running b"
  shows "ginv C0 cnt [] (deliver ev (s, b)) \<and> running (snd (deliver ev (s, b))) \<and>
         offset (snd (deliver ev (s, b))) = offset b \<and>
         pending (snd (deliver ev (s, b))) = pending b"
proof (cases "slot_of ev < length (tasks b) \<and> t_phase (tasks b ! slot_of ev) = awaits ev")
  case False
  then show ?thesis using inv run by (auto simp: deliver_def Let_def)
next
  case True
  define k where "k = slot_of ev"
  define t where "t = tasks b ! k"
  define t1 where "t1 = (case ev of TimerFired _ \<Rightarrow> t\<lparr>t_retry := Suc (t_retry t)\<rparr> | _ \<Rightarrow> t)"
  define os where "os = pi_resume ev (original (t_img t)) (t_retry t) s"
  have k: "k < length (tasks b)" and ph: "t_phase t = awaits ev"
    using True by (simp_all add: k_def t_def)
  have uns: "\<not> settled (tasks b ! k)"
    using ph awaits_not_settled [of ev] by (simp add: settled_def t_def)
  have t1: "t_index t1 = t_index (tasks b ! k)" "t_img t1 = t_img (tasks b ! k)"
    by (cases ev; simp add: t1_def t_def)+
  have d: "deliver ev (s, b) = continue k t1 os b"
    unfolding t1_def os_def t_def k_def deliver_def Let_def using True by simp
  obtain out s1 where os: "os = (out, s1)" by (cases os)
  have q: "images s1 = images s"
    "\<exists>Z. calls s1 = calls s @ Z \<and> filter is_batch_progress Z = []"
    "out \<noteq> Suspended Settled"
    "isBulkProcessing s1 = isBulkProcessing s"
    using pi_resume_quiet [of ev "original (t_img t)" "t_retry t" s] os
    by (simp_all add: os_def)
  show ?thesis
  proof (cases out)
    case (Suspended ph')
    with q(3) have ns: "ph' \<noteq> Settled" by simp
    have e: "continue k t1 os b = (s1, set_task k (t1\<lparr>t_phase := ph'\<rparr>) b)"
      by (simp add: continue_def os Suspended)
    have "ginv C0 cnt [] (s1, set_task k (t1\<lparr>t_phase := ph'\<rparr>) b)"
    proof (rule frame_inv [OF inv q(1) q(2)])
      show "if running (set_task k (t1\<lparr>t_phase := ph'\<rparr>) b) then isBulkProcessing s1
          else progress s1 = 0 \<and> \<not> isBulkProcessing s1 \<and>
            tasks (set_task k (t1\<lparr>t_phase := ph'\<rparr>) b) = []"
        using run ginvD(13) [OF inv] q(4) by (simp add: set_task_def)
      fix i assume "i < length (tasks b)"
      then show "t_index (tasks (set_task k (t1\<lparr>t_phase := ph'\<rparr>) b) ! i) = t_index (tasks b ! i) \<and>
        t_img (tasks (set_task k (t1\<lparr>t_phase := ph'\<rparr>) b) ! i) = t_img (tasks b ! i) \<and>
        settled (tasks (set_task k (t1\<lparr>t_phase := ph'\<rparr>) b) ! i) = settled (tasks b ! i)"
        using t1 uns ns by (cases "i = k") (simp_all add: set_task_def settled_def)
    qed (simp_all add: set_task_def)
    then show ?thesis
      using run by (simp add: d e set_task_def)
  next
    case (Returned v)
    let ?g = "\<lambda>x. x\<lparr>processed := Some v, status := Completed\<rparr>"
    let ?b1 = "set_task k (t1\<lparr>t_phase := Settled\<rparr>) b"
    obtain s' b' where r: "job_done t1 v (s1, ?b1) = (s', b')"
      by (cases "job_done t1 v (s1, ?b1)")
    have e: "continue k t1 os b = (s', b')"
      by (simp add: continue_def os Returned r)
    have jl: "t_index t1 < length (images s1)"
      using ginvD(6) [OF inv k] t1 q(1) by simp
    have b': "b' = ?b1\<lparr>processedCount := Suc (processedCount b)\<rparr>"
      using r by (auto simp: job_done_def Let_def set_task_def)
    have im: "images s' = map_at (t_index (tasks b ! k)) ?g (images s)"
      using r jl t1 q(1)
      by (auto simp: job_done_def Let_def setProgress_def emit_def cleanup_def
          split: option.splits)
    have "\<exists>Z. calls s' = calls s1 @ Z \<and> filter is_batch_progress Z =
        [BatchProgress (Suc (processedCount b)) (length (pending b))]"
      using r jl
      by (auto simp: job_done_def Let_def setProgress_def emit_def cleanup_def set_task_def
          split: option.splits)
    with q(2) have cl: "\<exists>Z. calls s' = calls s @ Z \<and> filter is_batch_progress Z =
        [BatchProgress (Suc (processedCount b)) (length (pending b))]"
      by (metis append.assoc append_Nil filter_append)
    have fl: "isBulkProcessing s' = isBulkProcessing s"
      using r q(4) jl
      by (auto simp: job_done_def Let_def setProgress_def emit_def cleanup_def
          split: option.splits)
    have "ginv C0 cnt [] (s', b')"
      by (rule settle_inv [OF inv k uns, where t' = "t1\<lparr>t_phase := Settled\<rparr>" and g = ?g
            and st' = Completed])
         (use t1 im cl run fl in \<open>simp_all add: b' set_task_def settled_def terminal_def\<close>)
    then show ?thesis
      using run by (simp add: d e b' set_task_def)
  next
    case (Thrown err)
    let ?g = "\<lambda>x. x\<lparr>status := Failed\<rparr>"
    let ?b1 = "set_task k (t1\<lparr>t_phase := Settled\<rparr>) b"
    obtain s' b' where r: "job_failed t1 (s1, ?b1) = (s', b')"
      by (cases "job_failed t1 (s1, ?b1)")
    have e: "continue k t1 os b = (s', b')"
      by (simp add: continue_def os Thrown r)
    have b': "b' = ?b1" using r by (auto simp: job_failed_def)
    have im: "images s' = map_at (t_index (tasks b ! k)) ?g (images s)"
      using r t1 q(1) by (auto simp: job_failed_def emit_def)
    have "\<exists>Z. calls s' = calls s1 @ Z \<and> filter is_batch_progress Z = []"
      using r by (auto simp: job_failed_def emit_def)
    with q(2) have cl: "\<exists>Z. calls s' = calls s @ Z \<and> filter is_batch_progress Z = []"
      by (rule quiet_trans)
    have fl: "isBulkProcessing s' = isBulkProcessing s"
      using r q(4) by (auto simp: job_failed_def emit_def)
    have "ginv C0 cnt [] (s', b')"
      by (rule settle_inv [OF inv k uns, where t' = "t1\<lparr>t_phase := Settled\<rparr>" and g = ?g
            and st' = Failed])
         (use t1 im cl run fl in \<open>simp_all add: b' set_task_def settled_def terminal_def\<close>)
    then show ?thesis
      using run by (simp add: d e b' set_task_def)
  qed
qed

lemma start_jobs_inv:
  assumes "ginv C0 cnt batch (s, b)" "running b"
  shows "ginv C0 cnt [] (start_jobs batch (s, b)) \<and> running (snd (start_jobs batch (s, b)))"
  using assms
proof (induction batch arbitrary: s b)
  case Nil
  then show ?case by simp
next
  case (Cons img batch)
  note D = ginvD [OF Cons.prems(1)]
  have iw: "img \<in> set (wave b)" using D(5) by (metis in_set_conv_decomp)
  then have "original img \<in> original ` set (snapshot b)"
    using wave_facts(2) [OF D(3)] D(4) by blast
  then obtain x where x: "x \<in> set (snapshot b)" "original x = original img" by auto
  obtain index where fi: "findIndex (\<lambda>x. original x = original img) (snapshot b) = Some index"
    using findIndex_None [of "\<lambda>x. original x = original img" "snapshot b" x] x
    by (cases "findIndex (\<lambda>x. original x = original img) (snapshot b)") auto
  from findIndex_Some [OF fi] have i1: "index < length (snapshot b)"
    and i2: "original (snapshot b ! index) = original img" by simp_all
  have len: "length (images s) = length (snapshot b)"
    using arg_cong [OF D(1), of length] by simp
  have idx: "index < length (images s)" using i1 len by simp
  have "map original (images s) ! index = map original (snapshot b) ! index"
    using D(1) by simp
  then have oi: "original (images s ! index) = original img"
    using idx i1 i2 by simp
  define t where "t = \<lparr>t_index = index, t_img = img, t_retry = 0, t_phase = AwaitFetch\<rparr>"
  define s1 where "s1 = s\<lparr>images := map_at index (\<lambda>x. x\<lparr>status := Processing\<rparr>) (images s)\<rparr>"
  define s2 where "s2 = start_attempt (original img) s1"
  define b' where "b' = b\<lparr>tasks := tasks b @ [t]\<rparr>"
  have pe: "pi_enter (original img) 0 s1 = (Suspended AwaitFetch, s2)"
    by (simp add: pi_enter_def maxRetries_def s2_def)
  have "(tasks b @ [t])[length (tasks b) := t\<lparr>t_phase := AwaitFetch\<rparr>] = tasks b @ [t]"
    by (simp add: t_def)
  then have co: "continue (length (tasks b)) t (pi_enter (original img) 0 s1) b' = (s2, b')"
    by (simp add: pe continue_def set_task_def b'_def)
  have sj: "start_jobs (img # batch) (s, b) = start_jobs batch (s2, b')"
    using fi co by (simp add: Let_def t_def [symmetric] s1_def [symmetric] b'_def [symmetric])
  have im: "images s2 = map_at index (\<lambda>x. x\<lparr>status := Processing\<rparr>) (images s)"
    using start_attempt_quiet [of "original img" s1] by (simp add: s2_def s1_def)
  have cl: "\<exists>Z. calls s2 = calls s @ Z \<and> filter is_batch_progress Z = []"
    using start_attempt_quiet [of "original img" s1] by (simp add: s2_def s1_def)
  have fl: "isBulkProcessing s2"
    using start_attempt_quiet [of "original img" s1] D(13) Cons.prems(2)
    by (simp add: s2_def s1_def)
  have "ginv C0 cnt batch (s2, b')"
    by (rule start_inv [OF Cons.prems(1) idx oi im cl, where t = t])
       (use Cons.prems(2) fl in \<open>simp_all add: b'_def t_def settled_def\<close>)
  moreover have "running b'" using Cons.prems(2) by (simp add: b'_def)
  ultimately show ?case
    unfolding sj by (rule Cons.IH)
qed

lemma advance_inv:
  assumes inv: "ginv C0 cnt [] (s, b)" and all: "list_all settled (tasks b)"
    and b': "b' = b\<lparr>offset := offset b + batchSize, tasks := []\<rparr>"
  shows "ginv C0 cnt (wave b') (s, b')"
proof -
  note D = ginvD [OF inv]
  have tw: "map t_img (tasks b) = wave b" using D(5) by simp
  have st: "\<And>k. k < length (tasks b) \<Longrightarrow> settled (tasks b ! k)"
    using all by (simp add: list_all_length)
  have trm: "\<And>q. q \<in> set (wave b) \<Longrightarrow> \<exists>st. status_of s (original q) = Some st \<and> terminal st"
  proof -
    fix q assume "q \<in> set (wave b)"
    then have "q \<in> set (map t_img (tasks b))" using tw by simp
    then obtain k where k: "k < length (tasks b)" "q = t_img (tasks b ! k)"
      by (auto simp: in_set_conv_nth)
    from D(8) [OF k(1) st [OF k(1)]] k(2) show "\<exists>st. status_of s (original q) = Some st \<and> terminal st"
      by simp
  qed
  have noproc: "\<And>u. status_of s u \<noteq> Some Processing"
  proof
    fix u assume p: "status_of s u = Some Processing"
    from D(10) [OF p] obtain q where "q \<in> set (wave b)" "u = original q" by auto
    with trm [of q] p show False by (auto simp: terminal_def)
  qed
  have tk: "take (offset b') (pending b') = take (offset b) (pending b) @ wave b"
    by (simp add: b' wave_def take_add)
  have dr: "set (drop (offset b' + batchSize) (pending b')) \<union> set (wave b')
      \<subseteq> set (drop (offset b + batchSize) (pending b))"
  proof -
    have "set (wave b') \<subseteq> set (drop (offset b + batchSize) (pending b))"
      unfolding wave_def b' by (simp add: set_take_subset)
    moreover have "drop (offset b' + batchSize) (pending b') =
        drop batchSize (drop (offset b + batchSize) (pending b))"
      by (simp add: b' add.commute)
    then have "set (drop (offset b' + batchSize) (pending b')) \<subseteq> set (drop (offset b + batchSize) (pending b))"
      by (simp only: set_drop_subset)
    ultimately show ?thesis by blast
  qed
  show ?thesis
  proof (rule ginvI)
    show "map original (images s) = map original (snapshot b')" using D(1) by (simp add: b')
    show "distinct (map original (snapshot b'))" using D(2) by (simp add: b')
    show "distinct (map original (pending b'))" using D(3) by (simp add: b')
    show "original ` set (pending b') \<subseteq> original ` set (snapshot b')" using D(4) by (simp add: b')
    show "map t_img (tasks b') @ wave b' = wave b'" by (simp add: b')
    show "\<And>u. status_of s u = Some Processing \<Longrightarrow> u \<in> original ` set (wave b')"
      using noproc by simp
    show "\<And>q. q \<in> set (take (offset b') (pending b')) \<Longrightarrow>
        \<exists>st. status_of s (original q) = Some st \<and> terminal st"
      unfolding tk using D(11) trm by auto
    show "\<exists>Y. calls s = C0 @ Y \<and> filter is_batch_progress Y =
        map (\<lambda>j. BatchProgress j (length (pending b'))) [1..<Suc (processedCount b')]"
      using D(12) by (simp add: b' del: upt_Suc)
    show "if running b' then isBulkProcessing s
        else progress s = 0 \<and> \<not> isBulkProcessing s \<and> tasks b' = []"
      using D(13) by (simp add: b')
    show "filter (\<lambda>img. processed img = None) (snapshot b') = pending b'"
      using D(16) by (simp add: b')
    show "\<And>j. cnt \<Longrightarrow> j < length (images s) \<Longrightarrow> status (images s ! j) \<noteq> Completed \<Longrightarrow>
        processed (images s ! j) = processed (snapshot b' ! j)"
      using D(17) by (simp add: b')
    show "\<And>j. cnt \<Longrightarrow> j < length (images s) \<Longrightarrow> jok (images s ! j)"
      using D(18) by simp
    show "\<And>q. cnt \<Longrightarrow> q \<in> set (drop (offset b' + batchSize) (pending b')) \<union> set (wave b') \<Longrightarrow>
        status_of s (original q) \<noteq> Some Completed"
      using D(14) dr by blast
    show "cnt \<Longrightarrow> processedCount b' =
        card {u \<in> original ` set (pending b'). status_of s u = Some Completed}"
      using D(15) by (simp add: b')
  qed (simp_all add: b')
qed

lemma finish_inv:
  assumes inv: "ginv C0 cnt (wave b) (s, b\<lparr>tasks := []\<rparr>)"
    and fin: "\<not> offset b < length (pending b)"
  shows "ginv C0 cnt [] (finish (s, b)) \<and> \<not> running (snd (finish (s, b)))"
proof -
  note D = ginvD [OF inv]
  define s' where "s' = fst (finish (s, b))"
  define b' where "b' = snd (finish (s, b))"
  have b': "b' = b\<lparr>running := False, tasks := []\<rparr>" by (simp add: b'_def finish_def)
  have im: "images s' = images s" "progress s' = 0" "\<not> isBulkProcessing s'"
    by (simp_all add: s'_def finish_def setProgress_def emit_def)
  have cl: "\<exists>Z. calls s' = calls s @ Z \<and> filter is_batch_progress Z = []"
    by (simp add: s'_def finish_def setProgress_def emit_def)
  have w0: "wave b = []" using fin by (simp add: wave_def)
  have "ginv C0 cnt [] (s', b')"
  proof (rule frame_inv [OF inv [unfolded w0] im(1) cl])
    show "if running b' then isBulkProcessing s'
        else progress s' = 0 \<and> \<not> isBulkProcessing s' \<and> tasks b' = []"
      using im(2,3) by (simp add: b')
  qed (simp_all add: b')
  then show ?thesis
    by (simp add: s'_def b'_def) (simp add: finish_def)
qed

declare run_waves.simps [simp del]

lemma run_waves_inv:
  assumes "ginv C0 cnt (wave (snd sb)) (fst sb, (snd sb)\<lparr>tasks := []\<rparr>)" "running (snd sb)"
  shows "ginv C0 cnt [] (run_waves sb)"
  using assms
proof (induction sb rule: run_waves.induct)
  case (1 sb)
  obtain s b where sb: "sb = (s, b)" by (cases sb)
  show ?case
  proof (cases "offset b < length (pending b)")
    case False
    then have "run_waves sb = finish sb" by (subst run_waves.simps) (simp add: sb)
    then show ?thesis
      using finish_inv [OF _ False, of C0 cnt s] "1.prems"(1) by (simp add: sb)
  next
    case True
    define sb1 where "sb1 = start_jobs (wave b) (s, b\<lparr>tasks := []\<rparr>)"
    have sb1': "sb1 = start_jobs (take batchSize (drop (offset (snd sb)) (pending (snd sb))))
        (fst sb, (snd sb)\<lparr>tasks := []\<rparr>)"
      by (simp add: sb1_def sb wave_def)
    obtain s1 b1 where r1: "sb1 = (s1, b1)" by (cases sb1)
    have sb1b: "start_jobs (take batchSize (drop (offset b) (pending b))) (s, b\<lparr>tasks := []\<rparr>)
        = (s1, b1)"
      using r1 by (simp add: sb1_def wave_def)
    have i1: "ginv C0 cnt [] (s1, b1)" and run1: "running b1"
      using start_jobs_inv [of C0 cnt "wave b" s "b\<lparr>tasks := []\<rparr>"] "1.prems"
      by (simp_all add: sb sb1_def [symmetric] r1)
    show ?thesis
    proof (cases "list_all settled (tasks b1)")
      case False
      then have "run_waves sb = sb1"
        using True by (subst run_waves.simps) (simp add: sb1b r1 sb Let_def)
      then show ?thesis using i1 r1 by simp
    next
      case all: True
      define b2 where "b2 = b1\<lparr>offset := offset b1 + batchSize\<rparr>"
      have e: "run_waves sb = run_waves (s1, b2)"
        using True all
        by (subst run_waves.simps) (simp add: sb1b sb Let_def b2_def)
      have "ginv C0 cnt (wave (b2\<lparr>tasks := []\<rparr>)) (s1, b2\<lparr>tasks := []\<rparr>)"
        by (rule advance_inv [OF i1 all]) (simp add: b2_def)
      then have p: "ginv C0 cnt (wave (snd (s1, b2))) (fst (s1, b2), (snd (s1, b2))\<lparr>tasks := []\<rparr>)"
        by (simp add: wave_def)
      have "ginv C0 cnt []
          (run_waves (fst sb1, (snd sb1)\<lparr>offset := offset (snd sb1) + batchSize\<rparr>))"
      proof (rule "1.IH" [OF _ sb1'])
        show "offset (snd sb) < length (pending (snd sb))" using True by (simp add: sb)
        show "list_all settled (tasks (snd sb1))" using all r1 by simp
        show "running (snd (fst sb1, (snd sb1)\<lparr>offset := offset (snd sb1) + batchSize\<rparr>))"
          using run1 by (simp add: r1)
        show "ginv C0 cnt
            (wave (snd (fst sb1, (snd sb1)\<lparr>offset := offset (snd sb1) + batchSize\<rparr>)))
            (fst (fst sb1, (snd sb1)\<lparr>offset := offset (snd sb1) + batchSize\<rparr>),
             (snd (fst sb1, (snd sb1)\<lparr>offset := offset (snd sb1) + batchSize\<rparr>))\<lparr>tasks := []\<rparr>)"
          using p by (simp add: r1 b2_def)
      qed
      then show ?thesis by (simp add: e r1 b2_def)
    qed
  qed
qed

lemma bulk_step_inv:
  assumes "ginv C0 cnt [] sb"
  shows "ginv C0 cnt [] (bulk_step ev sb)"
proof (cases "running (snd sb)")
  case False
  then show ?thesis using assms by (simp add: bulk_step_def)
next
  case True
  obtain s b where sb: "sb = (s, b)" by (cases sb)
  obtain s1 b1 where d: "deliver ev (s, b) = (s1, b1)" by (cases "deliver ev (s, b)")
  have i1: "ginv C0 cnt [] (s1, b1)" and r1: "running b1"
    using deliver_inv [of C0 cnt s b ev] assms True by (simp_all add: sb d)
  show ?thesis
  proof (cases "list_all settled (tasks b1)")
    case False
    then show ?thesis using True i1 by (simp add: bulk_step_def sb d)
  next
    case all: True
    let ?b2 = "b1\<lparr>offset := offset b1 + batchSize\<rparr>"
    have "ginv C0 cnt (wave (?b2\<lparr>tasks := []\<rparr>)) (s1, ?b2\<lparr>tasks := []\<rparr>)"
      by (rule advance_inv [OF i1 all]) simp
    then have "ginv C0 cnt (wave (snd (s1, ?b2))) (fst (s1, ?b2), (snd (s1, ?b2))\<lparr>tasks := []\<rparr>)"
      by (simp add: wave_def)
    then have "ginv C0 cnt [] (run_waves (s1, ?b2))"
      by (rule run_waves_inv) (simp add: r1)
    then show ?thesis using True all by (simp add: bulk_step_def sb d)
  qed
qed

lemma bulk_run_inv:
  "ginv C0 cnt [] sb \<Longrightarrow> ginv C0 cnt [] (bulk_run evs sb)"
  unfolding bulk_run_def
  by (induction evs arbitrary: sb) (simp_all add: bulk_step_inv)

lemma bulk_run_idle: "\<not> running (snd sb) \<Longrightarrow> bulk_run evs sb = sb"
  unfolding bulk_run_def by (induction evs) (simp_all add: bulk_step_def)

lemma init_inv:
  assumes d: "distinct (map original (images s))"
    and np: "list_all (\<lambda>img. status img \<noteq> Processing) (images s)"
    and jk: "cnt \<Longrightarrow> list_all jok (images s)"
    and st: "\<not> isBulkProcessing s" "filter (\<lambda>img. processed img = None) (images s) \<noteq> []"
  shows "ginv (calls s) cnt [] (handleBulkProcess s)"
proof -
  define p where "p = filter (\<lambda>img. processed img = None) (images s)"
  define s0 where "s0 = s\<lparr>isBulkProcessing := True\<rparr>"
  define b0 where "b0 = \<lparr>pending = p, snapshot = images s, offset = 0, processedCount = 0,
      tasks = [], running = True\<rparr>"
  have h: "handleBulkProcess s = run_waves (s0, b0)"
    using st by (simp add: handleBulkProcess_def Let_def p_def s0_def b0_def)
  have M: "status_of s0 = status_of s" by (rule status_of_cong) (simp add: s0_def)
  have nc: "\<And>q. cnt \<Longrightarrow> q \<in> set p \<Longrightarrow> status_of s (original q) \<noteq> Some Completed"
  proof -
    fix q assume c: cnt and q: "q \<in> set p"
    then have qi: "q \<in> set (images s)" and pn: "processed q = None" by (simp_all add: p_def)
    then obtain j where j: "j < length (images s)" "images s ! j = q"
      by (auto simp: in_set_conv_nth)
    have "jok q" using jk [OF c] qi by (simp add: list_all_iff)
    with pn have "status q \<noteq> Completed" by (auto simp: jok_def)
    then show "status_of s (original q) \<noteq> Some Completed"
      using status_of_nth [OF d j(1)] j(2) by simp
  qed
  have "ginv (calls s) cnt (wave b0) (s0, b0)"
  proof (rule ginvI)
    show "map original (images s0) = map original (snapshot b0)" by (simp add: s0_def b0_def)
    show "distinct (map original (snapshot b0))" using d by (simp add: b0_def)
    show "distinct (map original (pending b0))"
      using d by (simp add: b0_def p_def distinct_map_filter)
    show "original ` set (pending b0) \<subseteq> original ` set (snapshot b0)"
      by (auto simp: b0_def p_def)
    show "map t_img (tasks b0) @ wave b0 = wave b0" by (simp add: b0_def)
    show "\<And>u. status_of s0 u = Some Processing \<Longrightarrow> u \<in> original ` set (wave b0)"
      using np status_of_SomeD [of s] by (fastforce simp: M list_all_iff)
    show "\<And>q. q \<in> set (take (offset b0) (pending b0)) \<Longrightarrow>
        \<exists>st. status_of s0 (original q) = Some st \<and> terminal st"
      by (simp add: b0_def)
    show "\<exists>Y. calls s0 = calls s @ Y \<and> filter is_batch_progress Y =
        map (\<lambda>j. BatchProgress j (length (pending b0))) [1..<Suc (processedCount b0)]"
      by (simp add: s0_def b0_def)
    show "if running b0 then isBulkProcessing s0
        else progress s0 = 0 \<and> \<not> isBulkProcessing s0 \<and> tasks b0 = []"
      by (simp add: s0_def b0_def)
    show "filter (\<lambda>img. processed img = None) (snapshot b0) = pending b0"
      by (simp add: b0_def p_def)
    show "\<And>j. cnt \<Longrightarrow> j < length (images s0) \<Longrightarrow> status (images s0 ! j) \<noteq> Completed \<Longrightarrow>
        processed (images s0 ! j) = processed (snapshot b0 ! j)"
      by (simp add: s0_def b0_def)
    show "\<And>j. cnt \<Longrightarrow> j < length (images s0) \<Longrightarrow> jok (images s0 ! j)"
      using jk by (simp add: s0_def list_all_length)
    show "\<And>q. cnt \<Longrightarrow> q \<in> set (drop (offset b0 + batchSize) (pending b0)) \<union> set (wave b0) \<Longrightarrow>
        status_of s0 (original q) \<noteq> Some Completed"
    proof -
      fix q assume c: cnt and "q \<in> set (drop (offset b0 + batchSize) (pending b0)) \<union> set (wave b0)"
      then have "q \<in> set p"
        by (auto simp: b0_def wave_def dest: in_set_dropD in_set_takeD)
      from nc [OF c this] show "status_of s0 (original q) \<noteq> Some Completed" by (simp add: M)
    qed
    show "cnt \<Longrightarrow> processedCount b0 =
        card {u \<in> original ` set (pending b0). status_of s0 u = Some Completed}"
    proof -
      assume c: cnt
      have "{u \<in> original ` set p. status_of s u = Some Completed} = {}"
        using nc [OF c] by auto
      then show ?thesis by (simp add: b0_def M)
    qed
  qed (simp_all add: b0_def)
  then have "ginv (calls s) cnt (wave (snd (s0, b0))) (fst (s0, b0), (snd (s0, b0))\<lparr>tasks := []\<rparr>)"
    by (simp add: b0_def wave_def)
  then have "ginv (calls s) cnt [] (run_waves (s0, b0))"
    by (rule run_waves_inv) (simp add: b0_def)
  then show ?thesis by (simp add: h)
qed


lemma continue_fixed:
  "pending (snd (continue k t os b)) = pending b \<and>
   snapshot (snd (continue k t os b)) = snapshot b"
  by (cases os; cases "fst os")
     (auto simp: continue_def job_done_def job_failed_def set_task_def Let_def)

lemma deliver_fixed:
  "pending (snd (deliver ev sb)) = pending (snd sb) \<and>
   snapshot (snd (deliver ev sb)) = snapshot (snd sb)"
  by (cases sb) (simp add: deliver_def Let_def continue_fixed)

lemma start_jobs_fixed:
  "pending (snd (start_jobs batch sb)) = pending (snd sb) \<and>
   snapshot (snd (start_jobs batch sb)) = snapshot (snd sb)"
proof (induction batch sb rule: start_jobs.induct)
  case (1 sb)
  then show ?case by simp
next
  case (2 img batch s b)
  show ?case
  proof (cases "findIndex (\<lambda>x. original x = original img) (snapshot b)")
    case None
    with 2(1) show ?thesis by simp
  next
    case (Some index)
    from 2(2) [OF Some refl refl] Some show ?thesis
      by (simp add: Let_def continue_fixed)
  qed
qed

lemma run_waves_fixed:
  "pending (snd (run_waves sb)) = pending (snd sb) \<and>
   snapshot (snd (run_waves sb)) = snapshot (snd sb)"
proof (induction sb rule: run_waves.induct)
  case (1 sb)
  show ?case
  proof (cases "offset (snd sb) < length (pending (snd sb))")
    case False
    then show ?thesis
      by (subst (1 2) run_waves.simps) (simp add: finish_def split: prod.splits)
  next
    case True
    define sb1 where "sb1 = start_jobs (take batchSize (drop (offset (snd sb)) (pending (snd sb))))
                    (fst sb, (snd sb)\<lparr>tasks := []\<rparr>)"
    have f: "pending (snd sb1) = pending (snd sb)" "snapshot (snd sb1) = snapshot (snd sb)"
      using start_jobs_fixed [of _ "(fst sb, (snd sb)\<lparr>tasks := []\<rparr>)"] by (simp_all add: sb1_def)
    show ?thesis
    proof (cases "list_all settled (tasks (snd sb1))")
      case False
      then show ?thesis
        using True f by (subst (1 2) run_waves.simps) (simp add: Let_def sb1_def [symmetric])
    next
      case all: True
      from "1.IH" [OF True sb1_def all] f show ?thesis
        using True all by (subst (1 2) run_waves.simps) (simp add: Let_def sb1_def [symmetric])
    qed
  qed
qed

lemma bulk_step_fixed:
  "pending (snd (bulk_step ev sb)) = pending (snd sb) \<and>
   snapshot (snd (bulk_step ev sb)) = snapshot (snd sb)"
  using deliver_fixed [of ev sb]
  by (simp add: bulk_step_def Let_def run_waves_fixed)

lemma bulk_run_fixed:
  "pending (snd (bulk_run evs sb)) = pending (snd sb) \<and>
   snapshot (snd (bulk_run evs sb)) = snapshot (snd sb)"
  unfolding bulk_run_def
  by (induction evs arbitrary: sb) (simp_all add: bulk_step_fixed)

lemma handleBulkProcess_pending:
  "\<not> isBulkProcessing s \<Longrightarrow>
   pending (snd (handleBulkProcess s)) = filter (\<lambda>img. processed img = None) (images s)"
  by (auto simp: handleBulkProcess_def Let_def idle_def run_waves_fixed)


text \<open>
  C5, as the code has it. The batch runner reports its fraction once per Job that
  completes, as \<open>processed / pending.length\<close> with \<open>processed\<close> counting the completed
  Jobs: the reports are \<open>1/n, 2/n, \<dots>\<close> in call order, so they never decrease, and their
  number is the number of selected Jobs that are Completed. A Job that fails adds no
  report. When the run has settled the progress value has been reset to 0.
\<close>

theorem batch_progress_reports:
  assumes "distinct (map original (images s))"
    and "list_all (\<lambda>img. status img \<noteq> Processing) (images s)"
    and "list_all jok (images s)"
    and "\<not> isBulkProcessing s"
  shows "pending (snd (bulk_run evs (handleBulkProcess s)))
           = filter (\<lambda>img. processed img = None) (images s) \<and>
         filter is_batch_progress (new_calls s (fst (bulk_run evs (handleBulkProcess s))))
           = map (\<lambda>j. BatchProgress j (length (pending (snd (bulk_run evs (handleBulkProcess s))))))
               [1..<Suc (processedCount (snd (bulk_run evs (handleBulkProcess s))))] \<and>
         processedCount (snd (bulk_run evs (handleBulkProcess s)))
           = length (filter
               (\<lambda>q. status_of (fst (bulk_run evs (handleBulkProcess s))) (original q) = Some Completed)
               (pending (snd (bulk_run evs (handleBulkProcess s))))) \<and>
         (running (snd (bulk_run evs (handleBulkProcess s))) \<or>
          pending (snd (bulk_run evs (handleBulkProcess s))) = [] \<or>
          progress (fst (bulk_run evs (handleBulkProcess s))) = 0)"
proof -
  obtain s' b' where r: "bulk_run evs (handleBulkProcess s) = (s', b')"
    by (cases "bulk_run evs (handleBulkProcess s)")
  have p: "pending b' = filter (\<lambda>img. processed img = None) (images s)"
    using bulk_run_fixed [of evs "handleBulkProcess s"] handleBulkProcess_pending [OF assms(4)] r
    by simp
  show ?thesis
  proof (cases "filter (\<lambda>img. processed img = None) (images s) = []")
    case True
    then have "handleBulkProcess s = (s, idle)"
      by (auto simp: handleBulkProcess_def Let_def)
    then have e: "bulk_run evs (handleBulkProcess s) = (s, idle)"
      using bulk_run_idle [of "(s, idle)" evs] by (simp add: idle_def)
    show ?thesis unfolding e using True by (simp add: idle_def new_calls_def)
  next
    case False
    have inv: "ginv (calls s) True [] (s', b')"
      using bulk_run_inv [OF init_inv [OF assms(1,2) _ assms(4) False, of True], of evs] assms(3) r
      by simp
    note D = ginvD [OF inv]
    from D(12) obtain Y where Y: "calls s' = calls s @ Y"
      "filter is_batch_progress Y =
         map (\<lambda>j. BatchProgress j (length (pending b'))) [1..<Suc (processedCount b')]"
      by blast
    have a: "filter is_batch_progress (new_calls s s') =
        map (\<lambda>j. BatchProgress j (length (pending b'))) [1..<Suc (processedCount b')]"
      using Y by (simp add: new_calls_def)
    have "length (filter (\<lambda>q. status_of s' (original q) = Some Completed) (pending b')) =
        length (filter (\<lambda>u. status_of s' u = Some Completed) (map original (pending b')))"
      by (simp add: filter_map comp_def)
    also have "\<dots> = card ({u. status_of s' u = Some Completed} \<inter> set (map original (pending b')))"
      by (rule distinct_length_filter [OF D(3)])
    also have "\<dots> = card {u \<in> original ` set (pending b'). status_of s' u = Some Completed}"
      by (rule arg_cong [of _ _ card]) auto
    finally have b: "processedCount b' =
        length (filter (\<lambda>q. status_of s' (original q) = Some Completed) (pending b'))"
      using D(15) by simp
    have c: "running b' \<or> pending b' = [] \<or> progress s' = 0"
      using D(13) by (auto split: if_splits)
    show ?thesis unfolding r using p a b c by simp
  qed
qed


theorem batch_progress_reports_witness:
  "distinct (map original (images two_jobs)) \<and>
   list_all (\<lambda>img. status img \<noteq> Processing) (images two_jobs) \<and>
   list_all jok (images two_jobs) \<and> \<not> isBulkProcessing two_jobs \<and>
   processedCount (snd (bulk_run first_completes (handleBulkProcess two_jobs)))
     = length (filter
         (\<lambda>q. status_of (fst (bulk_run first_completes (handleBulkProcess two_jobs))) (original q)
                = Some Completed)
         (pending (snd (bulk_run first_completes (handleBulkProcess two_jobs)))))"
proof -
  have h: "distinct (map original (images two_jobs))"
    "list_all (\<lambda>img. status img \<noteq> Processing) (images two_jobs)"
    "list_all jok (images two_jobs)" "\<not> isBulkProcessing two_jobs"
    by (simp_all add: two_jobs_def job_def init_def jok_def)
  from batch_progress_reports [OF h, of first_completes] h show ?thesis by simp
qed

text \<open>
  C5 as stated fails. With two selected Jobs: the first completes and the fraction 1/2 is
  reported (50); a progress callback of the second Job's transform call then sets the
  shared progress value to 10; the second Job fails after its three attempts, which adds
  no report; and when the run has settled the progress value is 0, not 2/2.
\<close>

theorem batch_progress_counterexample:
  "progress (fst (bulk_run first_completes (handleBulkProcess two_jobs))) = 50 \<and>
   progress (fst (bulk_run (first_completes @ [Progress 1 10]) (handleBulkProcess two_jobs))) = 10 \<and>
   \<not> running (snd (bulk_run (first_completes @ [Progress 1 10] @ second_gives_up)
                  (handleBulkProcess two_jobs))) \<and>
   progress (fst (bulk_run (first_completes @ [Progress 1 10] @ second_gives_up)
                  (handleBulkProcess two_jobs))) = 0 \<and>
   batch_reports (fst (bulk_run (first_completes @ [Progress 1 10] @ second_gives_up)
                  (handleBulkProcess two_jobs))) = [BatchProgress 1 2] \<and>
   map status (images (fst (bulk_run (first_completes @ [Progress 1 10] @ second_gives_up)
                  (handleBulkProcess two_jobs)))) = [Completed, Failed]"
  by code_simp

section \<open>Properties of the controller and of sequences of operations\<close>

lemma steady_refl [simp]: "steady s s"
  by (simp add: steady_def)

lemma steady_trans: "steady s t \<Longrightarrow> steady t u \<Longrightarrow> steady s u"
  by (auto simp: steady_def)

lemma steady_frame:
  assumes "controllers t = controllers s" "abortController t = abortController s"
    "signalled_calls t = signalled_calls s" "nextBlob s \<le> nextBlob t"
    "images t = images s"
  shows "steady s t"
  using assms by (simp add: steady_def single_flight_ctrl_def split: option.splits)

lemma recorded_ok_map_at:
  assumes "list_all recorded_ok xs" "\<And>x. recorded_ok x \<Longrightarrow> recorded_ok (f x)"
  shows "list_all recorded_ok (map_at i f xs)"
  using assms by (simp add: list_all_length nth_map_at)

lemma steady_map_at:
  assumes "controllers t = controllers s" "abortController t = abortController s"
    "signalled_calls t = signalled_calls s" "nextBlob s \<le> nextBlob t"
    "images t = map_at i f (images s)" "\<And>x. recorded_ok x \<Longrightarrow> recorded_ok (f x)"
  shows "steady s t"
  using assms recorded_ok_map_at [of "images s" f i]
  by (simp add: steady_def single_flight_ctrl_def split: option.splits)

lemma single_flight_start:
  assumes "single_flight_ctrl s"
  shows "controllers (start_attempt u s) = replicate (length (controllers s)) True @ [False]"
    and "abortController (start_attempt u s) = Some (length (controllers s))"
    and "single_flight_ctrl (start_attempt u s)"
proof -
  show c: "controllers (start_attempt u s) = replicate (length (controllers s)) True @ [False]"
  proof (cases "abortController s")
    case None
    with assms show ?thesis
      by (simp add: single_flight_ctrl_def start_attempt_def emit_def new_controller_def
          abort_current_def)
  next
    case (Some c)
    with assms have cs: "length (controllers s) = Suc c" "take c (controllers s) = replicate c True"
      by (simp_all add: single_flight_ctrl_def)
    have "(controllers s)[c := True] = replicate (Suc c) True"
      using cs by (simp add: upd_conv_take_nth_drop replicate_append_same)
    then show ?thesis
      using Some cs
      by (simp add: start_attempt_def emit_def new_controller_def abort_current_def)
  qed
  show a: "abortController (start_attempt u s) = Some (length (controllers s))"
    by (simp add: start_attempt_def emit_def new_controller_def abort_current_def
        split: option.splits)
  show "single_flight_ctrl (start_attempt u s)"
    using c a by (simp add: single_flight_ctrl_def)
qed

lemma steady_start_attempt: "steady s (start_attempt u s)"
  using single_flight_start(3) [of s u]
  by (simp add: steady_def signalled_calls_def start_attempt_def emit_def new_controller_def
      abort_current_def split: option.splits)

lemma same_start_attempt:
  "same_but_flags s s' \<Longrightarrow> same_but_flags (start_attempt u s) (start_attempt u s')"
  by (simp add: same_but_flags_def start_attempt_def emit_def new_controller_def
      abort_current_def split: option.splits)

lemma steady_emit: "\<not> signalled c \<Longrightarrow> steady s (emit c s)"
  by (rule steady_frame) (simp_all add: emit_def signalled_calls_def)

lemma steady_fold_report: "steady s (fold report ps s)"
  by (rule steady_frame)
     (simp_all add: fold_report_frame fold_report_calls signalled_calls_def filter_map comp_def)

lemma same_fold_report:
  "same_but_flags s s' \<Longrightarrow> same_but_flags (fold report ps s) (fold report ps s')"
proof (induction ps arbitrary: s s')
  case Nil
  then show ?case by simp
next
  case (Cons p ps)
  have "same_but_flags (report p s) (report p s')"
    using Cons.prems by (simp add: same_but_flags_def report_def setProgress_def emit_def)
  then show ?case using Cons.IH by simp
qed

lemma steady_try_body: "steady s (snd (try_body a u s))"
proof -
  have 1: "steady s (start_attempt u s)" by (rule steady_start_attempt)
  have 2: "steady (start_attempt u s) (call_transform u (start_attempt u s))"
    unfolding call_transform_def by (rule steady_emit) simp
  have 3: "steady (call_transform u (start_attempt u s))
      (fold report ps (call_transform u (start_attempt u s)))" for ps
    by (rule steady_fold_report)
  show ?thesis
    using 1 steady_trans [OF 1 steady_trans [OF 2 3]]
    by (cases a) (simp_all add: try_body_def)
qed

lemma same_try_body:
  assumes "same_but_flags s s'"
  shows "fst (try_body a u s) = fst (try_body a u s') \<and>
         same_but_flags (snd (try_body a u s)) (snd (try_body a u s'))"
proof -
  have 1: "same_but_flags (start_attempt u s) (start_attempt u s')"
    by (rule same_start_attempt [OF assms])
  then have 2: "same_but_flags (call_transform u (start_attempt u s))
      (call_transform u (start_attempt u s'))"
    by (simp add: same_but_flags_def call_transform_def emit_def)
  show ?thesis
    using 1 same_fold_report [OF 2]
    by (cases a) (simp_all add: try_body_def)
qed

lemma processImage_steady_same:
  "steady s (snd (processImage env u r s)) \<and>
   (same_but_flags s s' \<longrightarrow>
      fst (processImage env u r s) = fst (processImage env u r s') \<and>
      same_but_flags (snd (processImage env u r s)) (snd (processImage env u r s')))"
proof (induction "maxRetries - r" arbitrary: r s s')
  case 0
  then show ?case by (simp add: processImage_exhausted)
next
  case (Suc n)
  then have lt: "r < maxRetries" by simp
  have n: "n = maxRetries - Suc r" using Suc.hyps(2) by simp
  let ?t = "snd (try_body (env r) u s)" and ?t' = "snd (try_body (env r) u s')"
  have st: "steady s ?t" by (rule steady_try_body)
  show ?case
  proof (cases "retryable (env r)")
    case True
    let ?w = "emit (SetTimeout (retryDelay * 2 ^ r)) (emit ConsoleError ?t)"
    let ?w' = "emit (SetTimeout (retryDelay * 2 ^ r)) (emit ConsoleError ?t')"
    have sw: "steady s ?w"
      by (rule steady_trans [OF st steady_trans [OF steady_emit steady_emit]]) simp_all
    have sm: "same_but_flags s s' \<Longrightarrow> same_but_flags ?w ?w'"
      using same_try_body [of s s' "env r" u] by (simp add: same_but_flags_def emit_def)
    from Suc.hyps(1) [OF n, of ?w ?w'] sw sm show ?thesis
      by (auto simp: processImage_retry [of r env, OF lt True] intro: steady_trans)
  next
    case False
    show ?thesis
    proof (cases "env r")
      case (TransformOk ps)
      have "steady ?t (?t\<lparr>nextBlob := Suc (nextBlob s)\<rparr>)"
        using st by (intro steady_frame) (simp_all add: signalled_calls_def steady_def try_body_nextBlob)
      with st have "steady s (?t\<lparr>nextBlob := Suc (nextBlob s)\<rparr>)" by (rule steady_trans)
      moreover have "same_but_flags s s' \<Longrightarrow> same_but_flags
          (?t\<lparr>nextBlob := Suc (nextBlob s)\<rparr>) (?t'\<lparr>nextBlob := Suc (nextBlob s')\<rparr>)"
        using same_try_body [of s s' "env r" u] by (simp add: same_but_flags_def)
      moreover have "same_but_flags s s' \<Longrightarrow> nextBlob s = nextBlob s'"
        by (simp add: same_but_flags_def)
      ultimately show ?thesis
        using processImage_ok [of r env ps u, OF lt TransformOk] by auto
    next
      case (FetchFails e)
      with False have a: "aborted (env r)" by simp
      show ?thesis
        using st same_try_body [of s s' "env r" u]
        by (simp add: processImage_aborted [of r env, OF lt a])
    next
      case (TransformFails ps e)
      with False have a: "aborted (env r)" by simp
      show ?thesis
        using st same_try_body [of s s' "env r" u]
        by (simp add: processImage_aborted [of r env, OF lt a])
    qed
  qed
qed

lemma lockstepD:
  assumes "lockstep F"
  shows "steady s (fst (F (s, b)))"
    and "same_but_flags s s' \<Longrightarrow> same_but_flags (fst (F (s, b))) (fst (F (s', b)))"
    and "same_but_flags s s' \<Longrightarrow> snd (F (s, b)) = snd (F (s', b))"
  using assms by (simp_all add: lockstep_def)

lemma lockstep_id: "lockstep (\<lambda>sb. sb)"
  by (simp add: lockstep_def)

lemma lockstep_comp:
  assumes "lockstep F" "lockstep G"
  shows "lockstep (\<lambda>sb. G (F sb))"
  unfolding lockstep_def
proof (intro allI conjI impI)
  fix s s' b
  obtain t c where F: "F (s, b) = (t, c)" by (cases "F (s, b)")
  have "steady s t" using lockstepD(1) [OF assms(1), of s b] F by simp
  moreover have "steady t (fst (G (t, c)))" by (rule lockstepD(1) [OF assms(2)])
  ultimately show "steady s (fst (G (F (s, b))))" by (simp add: F steady_trans)
  assume sm: "same_but_flags s s'"
  obtain t' c' where F': "F (s', b) = (t', c')" by (cases "F (s', b)")
  have e: "same_but_flags t t'" "c = c'"
    using lockstepD(2,3) [OF assms(1) sm, of b] F F' by simp_all
  show "same_but_flags (fst (G (F (s, b)))) (fst (G (F (s', b))))"
    "snd (G (F (s, b))) = snd (G (F (s', b)))"
    using lockstepD(2,3) [OF assms(2) e(1), of c] e(2) by (simp_all add: F F')
qed

lemma steady_pi_catch: "steady s (snd (pi_catch u r e s))"
  by (rule steady_frame) (simp_all add: pi_catch_def Let_def emit_def signalled_calls_def)

lemma steady_pi_resume: "steady s (snd (pi_resume ev u r s))"
proof (cases ev)
  case (FetchDone k eo)
  show ?thesis
  proof (cases eo)
    case None
    with FetchDone show ?thesis
      by (simp add: call_transform_def steady_emit)
  next
    case (Some e)
    with FetchDone show ?thesis by (simp add: steady_pi_catch)
  qed
next
  case (Progress k p)
  have "steady s (report p s)"
    by (rule steady_frame) (simp_all add: report_def setProgress_def emit_def signalled_calls_def)
  with Progress show ?thesis by simp
next
  case (TransformDone k eo)
  show ?thesis
  proof (cases eo)
    case None
    have "steady s (snd (createObjectURL s))"
      by (rule steady_frame) (simp_all add: createObjectURL_def signalled_calls_def)
    with TransformDone None show ?thesis by (simp add: split_beta)
  next
    case (Some e)
    with TransformDone show ?thesis by (simp add: steady_pi_catch)
  qed
next
  case (TimerFired k)
  then show ?thesis by (simp add: pi_enter_def steady_start_attempt)
qed

lemma same_pi_resume:
  assumes "same_but_flags s s'"
  shows "fst (pi_resume ev u r s) = fst (pi_resume ev u r s') \<and>
         same_but_flags (snd (pi_resume ev u r s)) (snd (pi_resume ev u r s'))"
proof (cases ev)
  case (FetchDone k eo)
  then show ?thesis
    using assms
    by (cases eo) (simp_all add: same_but_flags_def call_transform_def pi_catch_def emit_def Let_def)
next
  case (Progress k p)
  then show ?thesis
    using assms by (simp add: same_but_flags_def report_def setProgress_def emit_def)
next
  case (TransformDone k eo)
  then show ?thesis
    using assms
    by (cases eo) (simp_all add: same_but_flags_def createObjectURL_def pi_catch_def emit_def Let_def)
next
  case (TimerFired k)
  then show ?thesis
    using assms same_start_attempt [OF assms, of u] by (simp add: pi_enter_def)
qed

lemma steady_continue:
  assumes "steady s s1"
  shows "steady s (fst (continue k t (out, s1) b))"
proof (cases out)
  case (Suspended ph)
  then show ?thesis using assms by (simp add: continue_def)
next
  case (Returned v)
  have "steady s1 (fst (job_done t v (s1, c)))" for c
    by (rule steady_map_at [where i = "t_index t"
          and f = "\<lambda>x. x\<lparr>processed := Some v, status := Completed\<rparr>"])
       (simp_all add: job_done_def Let_def setProgress_def emit_def cleanup_def
          signalled_calls_def recorded_ok_def split: option.splits)
  with assms show ?thesis
    by (simp add: continue_def Returned) (rule steady_trans)
next
  case (Thrown e)
  have "steady s1 (fst (job_failed t (s1, c)))" for c
    by (rule steady_map_at [where i = "t_index t" and f = "\<lambda>x. x\<lparr>status := Failed\<rparr>"])
       (simp_all add: job_failed_def emit_def signalled_calls_def recorded_ok_def)
  with assms show ?thesis
    by (simp add: continue_def Thrown) (rule steady_trans)
qed

lemma same_continue:
  assumes "same_but_flags s1 s1'"
  shows "same_but_flags (fst (continue k t (out, s1) b)) (fst (continue k t (out, s1') b)) \<and>
         snd (continue k t (out, s1) b) = snd (continue k t (out, s1') b)"
  using assms
  by (cases out)
     (simp_all add: continue_def job_done_def job_failed_def Let_def same_but_flags_def
        setProgress_def emit_def cleanup_def split: option.splits)

lemma lockstep_deliver: "lockstep (deliver ev)"
  unfolding lockstep_def
proof (intro allI conjI impI)
  fix s s' :: state and b :: bulk
  define k where "k = slot_of ev"
  define g where "g = (k < length (tasks b) \<and> t_phase (tasks b ! k) = awaits ev)"
  define t where "t = tasks b ! k"
  define t1 where "t1 = (case ev of TimerFired _ \<Rightarrow> t\<lparr>t_retry := Suc (t_retry t)\<rparr> | _ \<Rightarrow> t)"
  define os where "os = (\<lambda>s. pi_resume ev (original (t_img t)) (t_retry t) s)"
  have d: "deliver ev (z, b) = (if g then continue k t1 (fst (os z), snd (os z)) b else (z, b))" for z
    unfolding g_def t1_def os_def t_def k_def deliver_def Let_def by simp
  have "steady s (snd (os s))" unfolding os_def by (rule steady_pi_resume)
  from steady_continue [OF this, of k t1 "fst (os s)" b]
  show "steady s (fst (deliver ev (s, b)))"
    by (simp add: d)
  assume sm: "same_but_flags s s'"
  have e: "fst (os s) = fst (os s')" "same_but_flags (snd (os s)) (snd (os s'))"
    using same_pi_resume [OF sm] by (simp_all add: os_def)
  from same_continue [OF e(2), of k t1 "fst (os s)" b]
  show "same_but_flags (fst (deliver ev (s, b))) (fst (deliver ev (s', b)))"
    "snd (deliver ev (s, b)) = snd (deliver ev (s', b))"
    using sm e(1) by (simp_all add: d)
qed

lemma lockstepI:
  assumes "\<And>s b. steady s (fst (F (s, b)))"
    and "\<And>s s' b. same_but_flags s s' \<Longrightarrow>
           same_but_flags (fst (F (s, b))) (fst (F (s', b))) \<and> snd (F (s, b)) = snd (F (s', b))"
  shows "lockstep F"
  using assms by (simp add: lockstep_def)

lemma lockstep_start_job:
  "lockstep (\<lambda>sb. case findIndex (\<lambda>x. original x = original img) (snapshot (snd sb)) of
        None \<Rightarrow> sb
      | Some index \<Rightarrow>
          let s1 = (fst sb)\<lparr>images := map_at index (\<lambda>x. x\<lparr>status := Processing\<rparr>) (images (fst sb))\<rparr>;
              t = \<lparr>t_index = index, t_img = img, t_retry = 0, t_phase = AwaitFetch\<rparr>
          in continue (length (tasks (snd sb))) t (pi_enter (original img) 0 s1)
               ((snd sb)\<lparr>tasks := tasks (snd sb) @ [t]\<rparr>))"
proof (rule lockstepI)
  fix s :: state and b :: bulk
  let ?F = "\<lambda>sb. case findIndex (\<lambda>x. original x = original img) (snapshot (snd sb)) of
        None \<Rightarrow> sb
      | Some index \<Rightarrow>
          let s1 = (fst sb)\<lparr>images := map_at index (\<lambda>x. x\<lparr>status := Processing\<rparr>) (images (fst sb))\<rparr>;
              t = \<lparr>t_index = index, t_img = img, t_retry = 0, t_phase = AwaitFetch\<rparr>
          in continue (length (tasks (snd sb))) t (pi_enter (original img) 0 s1)
               ((snd sb)\<lparr>tasks := tasks (snd sb) @ [t]\<rparr>)"
  have pe: "pi_enter u 0 z = (Suspended AwaitFetch, start_attempt u z)" for u z
    by (simp add: pi_enter_def maxRetries_def)
  show "steady s (fst (?F (s, b)))"
  proof (cases "findIndex (\<lambda>x. original x = original img) (snapshot b)")
    case None
    then show ?thesis by simp
  next
    case (Some index)
    let ?s1 = "s\<lparr>images := map_at index (\<lambda>x. x\<lparr>status := Processing\<rparr>) (images s)\<rparr>"
    have "steady s ?s1"
      by (rule steady_map_at [where i = index and f = "\<lambda>x. x\<lparr>status := Processing\<rparr>"])
         (simp_all add: signalled_calls_def recorded_ok_def)
    then have "steady s (start_attempt (original img) ?s1)"
      by (rule steady_trans) (rule steady_start_attempt)
    then show ?thesis
      by (simp add: Some Let_def pe continue_def)
  qed
  fix s' assume sm: "same_but_flags s s'"
  show "same_but_flags (fst (?F (s, b))) (fst (?F (s', b))) \<and> snd (?F (s, b)) = snd (?F (s', b))"
  proof (cases "findIndex (\<lambda>x. original x = original img) (snapshot b)")
    case None
    then show ?thesis using sm by simp
  next
    case (Some index)
    let ?s1 = "s\<lparr>images := map_at index (\<lambda>x. x\<lparr>status := Processing\<rparr>) (images s)\<rparr>"
    let ?s1' = "s'\<lparr>images := map_at index (\<lambda>x. x\<lparr>status := Processing\<rparr>) (images s')\<rparr>"
    have "same_but_flags ?s1 ?s1'" using sm by (simp add: same_but_flags_def)
    then have "same_but_flags (start_attempt (original img) ?s1) (start_attempt (original img) ?s1')"
      by (rule same_start_attempt)
    then show ?thesis
      by (simp add: Some Let_def pe continue_def)
  qed
qed

lemma lockstep_start_jobs: "lockstep (start_jobs batch)"
proof (induction batch)
  case Nil
  show ?case using lockstep_id by simp
next
  case (Cons img batch)
  have "start_jobs (img # batch) = (\<lambda>sb. start_jobs batch
      (case findIndex (\<lambda>x. original x = original img) (snapshot (snd sb)) of
        None \<Rightarrow> sb
      | Some index \<Rightarrow>
          let s1 = (fst sb)\<lparr>images := map_at index (\<lambda>x. x\<lparr>status := Processing\<rparr>) (images (fst sb))\<rparr>;
              t = \<lparr>t_index = index, t_img = img, t_retry = 0, t_phase = AwaitFetch\<rparr>
          in continue (length (tasks (snd sb))) t (pi_enter (original img) 0 s1)
               ((snd sb)\<lparr>tasks := tasks (snd sb) @ [t]\<rparr>)))"
    by (rule ext) (auto simp: Let_def split: option.splits)
  then show ?case
    using lockstep_comp [OF lockstep_start_job Cons.IH] by simp
qed

lemma lockstep_finish: "lockstep finish"
proof (rule lockstepI)
  fix s :: state and b :: bulk
  show "steady s (fst (finish (s, b)))"
    by (rule steady_frame) (simp_all add: finish_def setProgress_def emit_def signalled_calls_def)
  fix s' assume "same_but_flags s s'"
  then show "same_but_flags (fst (finish (s, b))) (fst (finish (s', b))) \<and>
      snd (finish (s, b)) = snd (finish (s', b))"
    by (simp add: finish_def setProgress_def emit_def same_but_flags_def)
qed

lemma run_waves_lockstep:
  "steady (fst sb) (fst (run_waves sb)) \<and>
   (\<forall>s'. same_but_flags (fst sb) s' \<longrightarrow>
      same_but_flags (fst (run_waves sb)) (fst (run_waves (s', snd sb))) \<and>
      snd (run_waves sb) = snd (run_waves (s', snd sb)))"
proof (induction sb rule: run_waves.induct)
  case (1 sb)
  obtain s b where sb: "sb = (s, b)" by (cases sb)
  show ?case
  proof (cases "offset b < length (pending b)")
    case False
    then have e: "run_waves (z, b) = finish (z, b)" for z
      by (subst run_waves.simps) simp
    show ?thesis
      using lockstepD [OF lockstep_finish] by (simp add: sb e)
  next
    case True
    define F where "F = start_jobs (take batchSize (drop (offset b) (pending b)))"
    define sb1 where "sb1 = F (s, b\<lparr>tasks := []\<rparr>)"
    have sb1': "sb1 = start_jobs (take batchSize (drop (offset (snd sb)) (pending (snd sb))))
        (fst sb, (snd sb)\<lparr>tasks := []\<rparr>)"
      by (simp add: sb1_def F_def sb)
    have lF: "lockstep F" unfolding F_def by (rule lockstep_start_jobs)
    have rw: "run_waves (z, b) =
        (let r = F (z, b\<lparr>tasks := []\<rparr>) in
         if list_all settled (tasks (snd r))
         then run_waves (fst r, (snd r)\<lparr>offset := offset (snd r) + batchSize\<rparr>) else r)" for z
      using True by (subst run_waves.simps) (simp add: F_def Let_def)
    have st1: "steady s (fst sb1)"
      unfolding sb1_def by (rule lockstepD(1) [OF lF])
    show ?thesis
    proof (cases "list_all settled (tasks (snd sb1))")
      case False
      have "same_but_flags (fst sb1) (fst (F (s', b\<lparr>tasks := []\<rparr>))) \<and>
          snd sb1 = snd (F (s', b\<lparr>tasks := []\<rparr>))" if "same_but_flags s s'" for s'
        unfolding sb1_def using lockstepD(2,3) [OF lF that] by simp
      then show ?thesis
        using False st1 by (auto simp: sb rw [of s] rw Let_def sb1_def [symmetric])
    next
      case all: True
      let ?n = "\<lambda>r. (fst r, (snd r)\<lparr>offset := offset (snd r) + batchSize\<rparr>)"
      have ts: "offset (snd sb) < length (pending (snd sb))" using True by (simp add: sb)
      note IH = "1.IH" [OF ts sb1' all]
      have a: "steady s (fst (run_waves (?n sb1)))"
        using IH st1 by (auto intro: steady_trans)
      have b: "same_but_flags (fst (run_waves (?n sb1)))
            (fst (run_waves (?n (F (s', b\<lparr>tasks := []\<rparr>))))) \<and>
          snd (run_waves (?n sb1)) = snd (run_waves (?n (F (s', b\<lparr>tasks := []\<rparr>))))"
        if sm: "same_but_flags s s'" for s'
      proof -
        have e: "same_but_flags (fst sb1) (fst (F (s', b\<lparr>tasks := []\<rparr>)))"
          "snd sb1 = snd (F (s', b\<lparr>tasks := []\<rparr>))"
          unfolding sb1_def using lockstepD(2,3) [OF lF sm] by simp_all
        from IH e show ?thesis by simp
      qed
      have c: "list_all settled (tasks (snd (F (s', b\<lparr>tasks := []\<rparr>))))"
        if sm: "same_but_flags s s'" for s'
        using all lockstepD(3) [OF lF sm, of "b\<lparr>tasks := []\<rparr>"] by (simp add: sb1_def)
      show ?thesis
        using all a b c by (auto simp: sb rw [of s] rw Let_def sb1_def [symmetric])
    qed
  qed
qed

lemma lockstep_run_waves: "lockstep run_waves"
  by (rule lockstepI) (use run_waves_lockstep in force)+

lemma lockstep_bulk_step: "lockstep (bulk_step ev)"
proof (rule lockstepI)
  fix s :: state and b :: bulk
  let ?n = "\<lambda>r :: state \<times> bulk. (fst r, (snd r)\<lparr>offset := offset (snd r) + batchSize\<rparr>)"
  have st: "steady s (fst (deliver ev (s, b)))"
    by (rule lockstepD(1) [OF lockstep_deliver])
  have "steady (fst (deliver ev (s, b))) (fst (run_waves (?n (deliver ev (s, b)))))"
    using lockstepD(1) [OF lockstep_run_waves, of "fst (deliver ev (s, b))"] by simp
  with st have "steady s (fst (run_waves (?n (deliver ev (s, b)))))"
    by (rule steady_trans)
  with st show "steady s (fst (bulk_step ev (s, b)))"
    by (simp add: bulk_step_def Let_def steady_refl)
  fix s' assume sm: "same_but_flags s s'"
  note d = lockstepD(2,3) [OF lockstep_deliver sm, of ev b]
  have "same_but_flags (fst (run_waves (?n (deliver ev (s, b)))))
      (fst (run_waves (?n (deliver ev (s', b))))) \<and>
    snd (run_waves (?n (deliver ev (s, b)))) = snd (run_waves (?n (deliver ev (s', b))))"
    using lockstepD(2,3) [OF lockstep_run_waves d(1)] d(2) by simp
  then show "same_but_flags (fst (bulk_step ev (s, b))) (fst (bulk_step ev (s', b))) \<and>
      snd (bulk_step ev (s, b)) = snd (bulk_step ev (s', b))"
    using d sm by (simp add: bulk_step_def Let_def)
qed

lemma lockstep_bulk_run: "lockstep (bulk_run evs)"
proof (induction evs)
  case Nil
  show ?case using lockstep_id by (simp add: bulk_run_def)
next
  case (Cons ev evs)
  have "bulk_run (ev # evs) = (\<lambda>sb. bulk_run evs (bulk_step ev sb))"
    by (rule ext) (simp add: bulk_run_def)
  then show ?case
    using lockstep_comp [OF lockstep_bulk_step Cons.IH] by simp
qed

lemma handleBulkProcess_steady: "steady s (fst (handleBulkProcess s))"
proof -
  have "steady s (s\<lparr>isBulkProcessing := True\<rparr>)"
    by (rule steady_frame) (simp_all add: signalled_calls_def)
  then show ?thesis
    using lockstepD(1) [OF lockstep_run_waves, of "s\<lparr>isBulkProcessing := True\<rparr>"]
    by (auto simp: handleBulkProcess_def Let_def steady_refl intro: steady_trans)
qed

lemma handleBulkProcess_same:
  assumes "same_but_flags s s'"
  shows "same_but_flags (fst (handleBulkProcess s)) (fst (handleBulkProcess s'))"
    "snd (handleBulkProcess s) = snd (handleBulkProcess s')"
proof -
  have e: "images s' = images s" "isBulkProcessing s' = isBulkProcessing s"
    using assms by (simp_all add: same_but_flags_def)
  have "same_but_flags (s\<lparr>isBulkProcessing := True\<rparr>) (s'\<lparr>isBulkProcessing := True\<rparr>)"
    using assms by (simp add: same_but_flags_def)
  note r = lockstepD(2,3) [OF lockstep_run_waves this]
  show "same_but_flags (fst (handleBulkProcess s)) (fst (handleBulkProcess s'))"
    "snd (handleBulkProcess s) = snd (handleBulkProcess s')"
    using assms r by (simp_all add: handleBulkProcess_def Let_def e)
qed

lemma same_abort_current: "same_but_flags s (abort_current s)"
  by (simp add: same_but_flags_def abort_current_def split: option.splits)

lemma same_but_flags_sym: "same_but_flags s t \<Longrightarrow> same_but_flags t s"
  by (simp add: same_but_flags_def)

lemma single_flight_abort_current:
  "single_flight_ctrl s \<Longrightarrow> single_flight_ctrl (abort_current s)"
  by (simp add: single_flight_ctrl_def abort_current_def split: option.splits)


lemma steady_handleSingleProcess: "steady s (handleSingleProcess env s)"
proof (cases "\<not> currentImageIndex s < length (images s) \<or> isProcessing s")
  case True
  then show ?thesis by (simp add: handleSingleProcess_def)
next
  case False
  define i where "i = currentImageIndex s"
  define s1 where "s1 = setProgress ProgressReset 0 (s\<lparr>isProcessing := True\<rparr>)"
  obtain res s2 where r: "processImage env (original (images s ! i)) 0 s1 = (res, s2)"
    by (cases "processImage env (original (images s ! i)) 0 s1")
  have a: "steady s s1"
    unfolding s1_def
    by (rule steady_frame) (simp_all add: setProgress_def emit_def signalled_calls_def)
  have b: "steady s1 s2"
    using processImage_steady_same [of s1 env "original (images s ! i)" 0 s1] r by simp
  have h: "handleSingleProcess env s =
      setProgress ProgressReset 0
        ((case res of
            Inr processedUrl \<Rightarrow>
              emit (ToastCall ProcessSuccess)
                ((if i < length (images s2) then cleanup (processed (images s2 ! i)) s2 else s2)
                   \<lparr>images := map_at i
                      (\<lambda>img. img\<lparr>processed := Some processedUrl, status := Completed\<rparr>)
                      (images s2)\<rparr>)
          | Inl error \<Rightarrow>
              emit (ToastCall ProcessingFailed)
                ((emit ConsoleError s2)\<lparr>images := map_at i
                    (\<lambda>img. img\<lparr>status := Failed\<rparr>) (images s2)\<rparr>))
         \<lparr>isProcessing := False\<rparr>)"
    using False r [unfolded s1_def i_def]
    by (cases res) (simp_all add: handleSingleProcess_def Let_def i_def cleanup_def emit_def
        split: option.splits)
  have c: "steady s2 (handleSingleProcess env s)"
  proof (cases res)
    case (Inr v)
    show ?thesis
      unfolding h Inr
      by (rule steady_map_at [where i = i
            and f = "\<lambda>img. img\<lparr>processed := Some v, status := Completed\<rparr>"])
         (simp_all add: setProgress_def emit_def cleanup_def signalled_calls_def
            recorded_ok_def split: option.splits)
  next
    case (Inl e)
    show ?thesis
      unfolding h Inl
      by (rule steady_map_at [where i = i and f = "\<lambda>img. img\<lparr>status := Failed\<rparr>"])
         (simp_all add: setProgress_def emit_def signalled_calls_def recorded_ok_def)
  qed
  from a b c show ?thesis by (blast intro: steady_trans)
qed

lemma create_previews_quiet:
  "controllers (snd (create_previews fs s)) = controllers s \<and>
   abortController (snd (create_previews fs s)) = abortController s \<and>
   nextBlob s \<le> nextBlob (snd (create_previews fs s))"
proof (induction fs arbitrary: s)
  case Nil
  then show ?case by simp
next
  case (Cons f fs)
  from Cons [of "s\<lparr>nextBlob := Suc (nextBlob s)\<rparr>"] show ?case
    by (auto simp: createObjectURL_def split: prod.splits)
qed

lemma compress_all_quiet:
  "controllers (snd (compress_all fps j cenv s)) = controllers s \<and>
   abortController (snd (compress_all fps j cenv s)) = abortController s \<and>
   nextBlob s \<le> nextBlob (snd (compress_all fps j cenv s)) \<and>
   signalled_calls (snd (compress_all fps j cenv s)) = signalled_calls s"
proof (induction fps j cenv s rule: compress_all.induct)
  case (1 j cenv s)
  then show ?case by simp
next
  case (2 f p fps j cenv s)
  show ?case
  proof (cases "cenv j")
    case None
    with 2(1) [OF None, of "fst (createObjectURL s)" "snd (createObjectURL s)"]
    show ?thesis
      by (auto simp: createObjectURL_def signalled_calls_def split: prod.splits)
  next
    case (Some e)
    from 2(2) [OF Some] Some show ?thesis
      by (auto simp: cleanup_def emit_def signalled_calls_def split: prod.splits)
  qed
qed

lemma steady_handleImageUpload: "steady s (handleImageUpload files cenv s)"
proof -
  let ?t = "handleImageUpload files cenv s"
  let ?v = "filter valid_file files"
  obtain ps s1 where cp: "create_previews ?v s = (ps, s1)" by (cases "create_previews ?v s")
  obtain rs s2 where ca: "compress_all (zip ?v ps) 0 cenv s1 = (rs, s2)"
    by (cases "compress_all (zip ?v ps) 0 cenv s1")
  have q1: "controllers s1 = controllers s" "abortController s1 = abortController s"
    "nextBlob s \<le> nextBlob s1" "calls s1 = calls s"
    using create_previews_quiet [of ?v s] create_previews_frame [of ?v s] cp by simp_all
  have q2: "controllers s2 = controllers s1" "abortController s2 = abortController s1"
    "nextBlob s1 \<le> nextBlob s2" "signalled_calls s2 = signalled_calls s1"
    using compress_all_quiet [of "zip ?v ps" 0 cenv s1] ca by simp_all
  have sg: "signalled_calls s1 = signalled_calls s" using q1(4) by (simp add: signalled_calls_def)
  have fr: "controllers ?t = controllers s" "abortController ?t = abortController s"
    "signalled_calls ?t = signalled_calls s" "nextBlob s \<le> nextBlob ?t"
    using cp ca q1 q2 sg
    by (auto simp: handleImageUpload_def Let_def emit_def signalled_calls_def
        split: option.splits)
  have im: "take (length (images s)) (images ?t) = images s"
    "list_all (\<lambda>img. status img = Pending \<and> processed img = None \<and> retries img = 0)
       (drop (length (images s)) (images ?t))"
    using handleImageUpload_summary [of s files cenv] by simp_all
  have "list_all recorded_ok (drop (length (images s)) (images ?t))"
    using im(2) by (simp add: list_all_iff recorded_ok_def)
  moreover have "images ?t = images s @ drop (length (images s)) (images ?t)"
    using im(1) append_take_drop_id [of "length (images s)" "images ?t"] by simp
  ultimately have "list_all recorded_ok (images s) \<Longrightarrow> list_all recorded_ok (images ?t)"
    by (metis list_all_append)
  then show ?thesis
    using fr by (simp add: steady_def single_flight_ctrl_def split: option.splits)
qed

lemma steady_handleDelete: "steady s (handleDelete s)"
proof -
  have "list_all recorded_ok (map snd (filter P (enumerate 0 xs)))"
    if "list_all recorded_ok xs" for P xs
  proof -
    have "set (map snd (filter P (enumerate 0 xs))) \<subseteq> set xs"
      by (auto simp: in_set_enumerate_eq)
    with that show ?thesis by (auto simp: list_all_iff)
  qed
  then show ?thesis
    by (auto simp: steady_def handleDelete_def Let_def emit_def cleanup_def
        signalled_calls_def single_flight_ctrl_def split: option.splits)
qed

lemma fold_cleanup_frame:
  "controllers (fold (\<lambda>img z. cleanup (processed img)
        (cleanup (Some (preview img)) (cleanup (Some (original img)) z))) xs s) = controllers s \<and>
   abortController (fold (\<lambda>img z. cleanup (processed img)
        (cleanup (Some (preview img)) (cleanup (Some (original img)) z))) xs s) = abortController s \<and>
   nextBlob (fold (\<lambda>img z. cleanup (processed img)
        (cleanup (Some (preview img)) (cleanup (Some (original img)) z))) xs s) = nextBlob s \<and>
   images (fold (\<lambda>img z. cleanup (processed img)
        (cleanup (Some (preview img)) (cleanup (Some (original img)) z))) xs s) = images s \<and>
   signalled_calls (fold (\<lambda>img z. cleanup (processed img)
        (cleanup (Some (preview img)) (cleanup (Some (original img)) z))) xs s) = signalled_calls s"
  by (induction xs arbitrary: s)
     (simp_all add: cleanup_def emit_def signalled_calls_def split: option.splits)

lemma steady_abort_current: "steady s (abort_current s)"
  using single_flight_abort_current [of s]
  by (simp add: steady_def signalled_calls_def abort_current_def split: option.splits)

lemma steady_effect_cleanup: "steady s (effect_cleanup s)"
proof -
  let ?m = "fold (\<lambda>img z. cleanup (processed img)
        (cleanup (Some (preview img)) (cleanup (Some (original img)) z))) (images s) s"
  have "steady s ?m"
    by (rule steady_frame) (simp_all add: fold_cleanup_frame)
  then show ?thesis
    unfolding effect_cleanup_def by (rule steady_trans) (rule steady_abort_current)
qed

lemma steady_exec: "steady (fst sb) (fst (exec x sb))"
proof (cases sb)
  case (Pair s b)
  show ?thesis
  proof (cases x)
    case (Upload files cenv)
    then show ?thesis by (simp add: Pair steady_handleImageUpload)
  next
    case (ProcessOne env)
    then show ?thesis by (simp add: Pair steady_handleSingleProcess)
  next
    case ProcessAll
    then show ?thesis by (simp add: Pair handleBulkProcess_steady)
  next
    case (Event ev)
    then show ?thesis using lockstepD(1) [OF lockstep_bulk_step, of s ev b] by (simp add: Pair)
  next
    case Delete
    then show ?thesis by (simp add: Pair steady_handleDelete)
  next
    case (Select idx)
    have "steady s (s\<lparr>currentImageIndex := idx\<rparr>)"
      by (rule steady_frame) (simp_all add: signalled_calls_def)
    with Select show ?thesis by (simp add: Pair)
  next
    case Cleanup
    then show ?thesis by (simp add: Pair steady_effect_cleanup)
  qed
qed

lemma steady_run_ops: "steady (fst sb) (fst (run_ops ops sb))"
  unfolding run_ops_def
proof (induction ops arbitrary: sb)
  case Nil
  show ?case by simp
next
  case (Cons x ops)
  show ?case
    using steady_trans [OF steady_exec [of sb x] Cons [of "exec x sb"]] by simp
qed

lemma list_all_map_at:
  assumes "list_all P xs" "\<And>x. P x \<Longrightarrow> P (f x)"
  shows "list_all P (map_at i f xs)"
  using assms by (simp add: list_all_length nth_map_at)

lemma handleSingleProcess_images:
  "images (handleSingleProcess env s) = images s \<or>
   (\<exists>v. images (handleSingleProcess env s) =
      map_at (currentImageIndex s) (\<lambda>img. img\<lparr>processed := Some v, status := Completed\<rparr>)
        (images s)) \<or>
   images (handleSingleProcess env s) =
      map_at (currentImageIndex s) (\<lambda>img. img\<lparr>status := Failed\<rparr>) (images s)"
proof (cases "\<not> currentImageIndex s < length (images s) \<or> isProcessing s")
  case True
  then show ?thesis by (simp add: handleSingleProcess_def)
next
  case False
  let ?s1 = "setProgress ProgressReset 0 (s\<lparr>isProcessing := True\<rparr>)"
  let ?r = "processImage env (original (images s ! currentImageIndex s)) 0 ?s1"
  obtain res s2 where r: "?r = (res, s2)" by (cases ?r)
  have im: "images s2 = images s"
    using processImage_frame [of env "original (images s ! currentImageIndex s)" 0 ?s1] r
    by (simp add: setProgress_def emit_def)
  show ?thesis
    using False r im
    by (cases res)
       (auto simp: handleSingleProcess_def Let_def setProgress_def emit_def cleanup_def
          split: option.splits)
qed

lemma jok_handleSingleProcess:
  assumes "list_all jok (images s)"
  shows "list_all jok (images (handleSingleProcess env s))"
  using handleSingleProcess_images [of env s] assms
  by (auto intro!: list_all_map_at simp: jok_def split: status.splits)

lemma jok_handleImageUpload:
  assumes "list_all jok (images s)"
  shows "list_all jok (images (handleImageUpload files cenv s))"
proof -
  let ?t = "handleImageUpload files cenv s"
  have im: "take (length (images s)) (images ?t) = images s"
    "list_all (\<lambda>img. status img = Pending \<and> processed img = None \<and> retries img = 0)
       (drop (length (images s)) (images ?t))"
    using handleImageUpload_summary [of s files cenv] by simp_all
  have "list_all jok (drop (length (images s)) (images ?t))"
    using im(2) by (simp add: list_all_iff jok_def)
  moreover have "images ?t = images s @ drop (length (images s)) (images ?t)"
    using im(1) append_take_drop_id [of "length (images s)" "images ?t"] by simp
  ultimately show ?thesis
    using assms by (metis list_all_append)
qed

lemma jok_handleDelete:
  assumes "list_all jok (images s)"
  shows "list_all jok (images (handleDelete s))"
proof -
  have "list_all jok (map snd (filter P (enumerate 0 xs)))" if "list_all jok xs" for P xs
  proof -
    have "set (map snd (filter P (enumerate 0 xs))) \<subseteq> set xs"
      by (auto simp: in_set_enumerate_eq)
    with that show ?thesis by (auto simp: list_all_iff)
  qed
  from this [OF assms] assms show ?thesis
    by (simp add: handleDelete_def Let_def emit_def cleanup_def split: option.splits)
qed

lemma jok_batch_run:
  assumes d: "distinct (map original (images s))"
    and np: "list_all (\<lambda>img. status img \<noteq> Processing) (images s)"
    and jk: "list_all jok (images s)"
  shows "list_all jok (images (fst (bulk_run evs (handleBulkProcess s))))"
proof (cases "isBulkProcessing s \<or> filter (\<lambda>img. processed img = None) (images s) = []")
  case True
  then have "handleBulkProcess s = (s, idle)"
    by (auto simp: handleBulkProcess_def Let_def)
  then have "bulk_run evs (handleBulkProcess s) = (s, idle)"
    using bulk_run_idle [of "(s, idle)" evs] by (simp add: idle_def)
  then show ?thesis using jk by simp
next
  case False
  then have st: "\<not> isBulkProcessing s" "filter (\<lambda>img. processed img = None) (images s) \<noteq> []"
    by simp_all
  have "ginv (calls s) True [] (handleBulkProcess s)"
    using init_inv [OF d np _ st, of True] jk by simp
  then have g: "ginv (calls s) True [] (bulk_run evs (handleBulkProcess s))"
    by (rule bulk_run_inv)
  obtain t c where tc: "bulk_run evs (handleBulkProcess s) = (t, c)"
    by (cases "bulk_run evs (handleBulkProcess s)")
  have "\<And>j. j < length (images t) \<Longrightarrow> jok (images t ! j)"
    using ginvD(18) [OF g [unfolded tc]] by simp
  then show ?thesis by (simp add: tc list_all_length)
qed



text \<open>
  C8, as the code has it. After every sequence of operations from the initial state (the
  handlers, the events of a batch run and the effect cleanup, in any order), a Completed
  Job has a result and a Pending Job has none. A Failed Job keeps whatever result an
  earlier episode recorded. When a handler runs from a state in which no Job is
  Processing, the source URLs are distinct and every Pending Job is without result and
  every Completed Job has one, then after the intake, the deletion, a whole episode of
  handleSingleProcess, and after every event of a batch run that nothing else
  interleaves, a Processing Job has no result either.
\<close>

theorem result_recorded_invariant:
  "list_all recorded_ok (images (fst (run_ops ops (init, idle)))) \<and>
   (distinct (map original (images s)) \<and>
    list_all (\<lambda>img. status img \<noteq> Processing) (images s) \<and> list_all jok (images s) \<longrightarrow>
      list_all jok (images (fst (bulk_run evs (handleBulkProcess s)))) \<and>
      list_all jok (images (handleSingleProcess env s)) \<and>
      list_all jok (images (handleImageUpload files cenv s)) \<and>
      list_all jok (images (handleDelete s)))"
proof -
  have "steady init (fst (run_ops ops (init, idle)))"
    using steady_run_ops [of "(init, idle)" ops] by simp
  moreover have "list_all recorded_ok (images init)" by (simp add: init_def)
  ultimately have "list_all recorded_ok (images (fst (run_ops ops (init, idle))))"
    by (simp add: steady_def)
  then show ?thesis
    using jok_batch_run [of s evs] jok_handleSingleProcess [of s env]
      jok_handleImageUpload [of s files cenv] jok_handleDelete [of s]
    by blast
qed

theorem result_recorded_invariant_witness:
  "list_all recorded_ok (images (fst (run_ops reprocess_fails (init, idle)))) \<and>
   distinct (map original (images two_jobs)) \<and>
   list_all (\<lambda>img. status img \<noteq> Processing) (images two_jobs) \<and>
   list_all jok (images two_jobs) \<and>
   list_all jok (images (fst (bulk_run first_completes (handleBulkProcess two_jobs)))) \<and>
   list_all jok (images (handleSingleProcess fails_twice two_jobs)) \<and>
   list_all jok (images (handleImageUpload three_valid second_fails two_jobs)) \<and>
   list_all jok (images (handleDelete two_jobs))"
  using result_recorded_invariant [of reprocess_fails two_jobs first_completes fails_twice
      three_valid second_fails]
  by (simp add: two_jobs_def job_def jok_def init_def)

text \<open>
  C8 as stated fails: a Job that completed once and whose next episode fails is Failed
  and still has the result of the first episode. And a Job that a single episode
  completes while a batch run that selected it is under way is set to Processing by its
  wave, with the result it has.
\<close>

theorem failed_keeps_result_counterexample:
  "map status (images (fst (run_ops reprocess_fails (init, idle)))) = [Failed] \<and>
   map processed (images (fst (run_ops reprocess_fails (init, idle)))) = [Some (BlobUrl 2)] \<and>
   map status (images (fst (run_ops single_during_run (three_jobs, idle)))) =
     [Completed, Completed, Processing] \<and>
   map processed (images (fst (run_ops single_during_run (three_jobs, idle)))) =
     [Some (BlobUrl 7), Some (BlobUrl 8), Some (BlobUrl 6)]"
proof -
  have a: "map status (images (fst (run_ops reprocess_fails (init, idle)))) = [Failed] \<and>
      map processed (images (fst (run_ops reprocess_fails (init, idle)))) = [Some (BlobUrl 2)]"
    by (simp add: run_ops_def reprocess_fails_def handleImageUpload_def jpeg_def
        valid_file_def upload_types_def maxSize_def init_def createObjectURL_def emit_def
        cleanup_def handleSingleProcess_def Let_def setProgress_def processImage.simps
        try_body_def start_attempt_def call_transform_def new_controller_def abort_current_def
        report_def fails_twice_def always_failing_def maxRetries_def map_at_def enumerate_eq_zip
        max_retries_exceeded_def)
  have b: "map status (images (fst (run_ops single_during_run (three_jobs, idle)))) =
        [Completed, Completed, Processing] \<and>
      map processed (images (fst (run_ops single_during_run (three_jobs, idle)))) =
        [Some (BlobUrl 7), Some (BlobUrl 8), Some (BlobUrl 6)]"
    by code_simp
  from a b show ?thesis by (intro conjI) (elim conjE, assumption)+
qed




text \<open>
  C10. No fetch and no transform call is ever handed a signal, by the component after any
  sequence of operations or by the worker. So aborting the controller of the shared ref
  changes nothing but that controller's flag: processImage returns the same value and
  leaves the same state, and a batch run goes through the same states, whether or not
  the controller is aborted first. The abort branch of processImage is taken when the
  environment rejects with an \<^verbatim>\<open>AbortError\<close>, which no abort of this controller brings
  about.
\<close>

theorem abort_never_interrupts:
  "signalled_calls (fst (run_ops ops (init, idle))) = [] \<and>
   filter signalled (fst (worker_onmessage w imageData n)) = [] \<and>
   fst (processImage env u r (abort_current s)) = fst (processImage env u r s) \<and>
   same_but_flags (snd (processImage env u r s)) (snd (processImage env u r (abort_current s))) \<and>
   same_but_flags (fst (bulk_run evs (s, b))) (fst (bulk_run evs (abort_current s, b))) \<and>
   snd (bulk_run evs (s, b)) = snd (bulk_run evs (abort_current s, b))"
proof -
  have "steady init (fst (run_ops ops (init, idle)))"
    using steady_run_ops [of "(init, idle)" ops] by simp
  then have 1: "signalled_calls (fst (run_ops ops (init, idle))) = []"
    by (simp add: steady_def signalled_calls_def init_def)
  have 2: "filter signalled (fst (worker_onmessage w imageData n)) = []"
    by (cases w) (simp_all add: worker_onmessage_def)
  note sm = same_abort_current [of s]
  have 3: "fst (processImage env u r (abort_current s)) = fst (processImage env u r s)"
    "same_but_flags (snd (processImage env u r s)) (snd (processImage env u r (abort_current s)))"
    using processImage_steady_same [of s env u r "abort_current s"] sm by simp_all
  have 4: "same_but_flags (fst (bulk_run evs (s, b))) (fst (bulk_run evs (abort_current s, b)))"
    "snd (bulk_run evs (s, b)) = snd (bulk_run evs (abort_current s, b))"
    using lockstepD(2,3) [OF lockstep_bulk_run sm, of evs b] by simp_all
  from 1 2 3 4 show ?thesis by simp
qed





end
